theory Spec2Isabelle
  imports Complex_Main "HOL-Library.Word"
begin

unbundle bit_operations_syntax

section \<open>The FSK modem of go-fsk (fsk/fsk.go, fsk/core)\<close>

text \<open>
  Conventions of the embedding.
  \<^item> Go's \<open>float64\<close> and \<open>float32\<close> are idealised as \<open>real\<close> in the waveform, the phases
    and the correlations: rounding, infinities and NaN are outside the model there, and
    \<open>float32(x)\<close> is the identity. Every statement below that mentions a sample, a phase or
    a correlation is a statement about this idealisation. The one float that decides an
    integer, the quotient \<open>float64(config.SampleRate) / config.BaudRate\<close> of \<open>New\<close>, is
    rounded to binary64 as IEEE 754 prescribes.
  \<^item> Go's \<open>int\<close> is \<open>int\<close>; loop counters and lengths, which start at 0 and only grow,
    are \<open>nat\<close>. Sums and products of lengths are not wrapped. The shift \<open>1 << n\<close> is
    modelled at the 64 bits of Go's \<open>int\<close> on amd64, arm64 and wasm, because
    \<open>1 << config.Order\<close> leaves that range for an order a caller can pass.
  \<^item> A run-time panic is a value \<open>Inl p\<close>, and so is the fatal error of an allocation
    that the heap cannot serve.
  \<^item> What Go leaves to the implementation or to the machine is a field of the record
    \<open>Runtime\<close>, an argument of \<open>New\<close>.
  \<^item> A method with a pointer receiver that mutates the modem returns the new modem.
\<close>

type_synonym byte = "8 word"

datatype panic =
    DivideByZero
  | IndexOutOfRange
  | NegativeShift
  | LenOutOfRange
  | OutOfMemory

text \<open>The Go runtime under the program: \<open>maxAlloc\<close> is the largest size in bytes that
  \<open>make\<close> accepts (\<open>2^48\<close> on linux/amd64), \<open>freeMemory\<close> the number of bytes the heap can
  still provide, and \<open>unrepresentable\<close> the result of converting to \<open>int\<close> a float that
  has no \<open>int\<close> value, which the language leaves to the implementation.\<close>

record Runtime =
  maxAlloc :: int
  freeMemory :: int
  unrepresentable :: int

text \<open>\<open>1 << n\<close> on a 64-bit \<open>int\<close>, for \<open>n \<ge> 0\<close>.\<close>

definition shl1 :: "int \<Rightarrow> int" where
  "shl1 n = sint (push_bit (nat n) (1 :: 64 word))"

text \<open>Go's integer division truncates towards zero.\<close>

definition quo :: "int \<Rightarrow> int \<Rightarrow> int" where
  "quo a b = sgn a * sgn b * (\<bar>a\<bar> div \<bar>b\<bar>)"

text \<open>Truncation of a real towards zero.\<close>

definition truncInt :: "real \<Rightarrow> int" where
  "truncInt x = (if 0 \<le> x then \<lfloor>x\<rfloor> else \<lceil>x\<rceil>)"

text \<open>Rounding to the nearest integer, a tie to the even one.\<close>

definition roundHalfEven :: "real \<Rightarrow> int" where
  "roundHalfEven y =
     (let f = \<lfloor>y\<rfloor>;
          d = y - real_of_int f
      in if d < 1 / 2 then f else if 1 / 2 < d then f + 1 else if even f then f else f + 1)"

text \<open>The binary64 number nearest to a real, a tie to the even significand (the rounding
  of IEEE 754 that Go's \<open>float64\<close> arithmetic and conversions use). A binary64 number has 53
  significant bits; the exponent of a normal number is between -1022 and 1023, and the
  subnormal numbers are the multiples of \<open>2^-1074\<close> below \<open>2^-1022\<close>. \<open>None\<close> stands for an
  infinity or NaN. The sign of a zero is not modelled.\<close>

definition round64 :: "real \<Rightarrow> real option" where
  "round64 x =
     (if x = 0 then Some 0
      else let e = max \<lfloor>log 2 \<bar>x\<bar>\<rfloor> (- 1022);
               ulp = 2 powi (e - 52);
               y = real_of_int (roundHalfEven (x / ulp)) * ulp
           in if \<bar>y\<bar> < 2 ^ 1024 then Some y else None)"

text \<open>\<open>float64(sampleRate) / baudRate\<close>: the conversion of the integer rounds, and so does
  the division; a division by zero gives an infinity or NaN.\<close>

definition quotient64 :: "int \<Rightarrow> real \<Rightarrow> real option" where
  "quotient64 sampleRate baudRate =
     (case round64 (real_of_int sampleRate) of
        None \<Rightarrow> None
      | Some s \<Rightarrow> if baudRate = 0 then None else round64 (s / baudRate))"

text \<open>\<open>int(x)\<close> for a float \<open>x\<close>: the fraction is discarded. The conversion never
  panics; when the value does not fit the 64 bits, or is an infinity or NaN, the result is
  the implementation's.\<close>

definition float_to_int :: "Runtime \<Rightarrow> real option \<Rightarrow> int" where
  "float_to_int rt x =
     (case x of
        None \<Rightarrow> unrepresentable rt
      | Some v \<Rightarrow>
          (let t = truncInt v
           in if - (2 ^ 63) \<le> t \<and> t < 2 ^ 63 then t else unrepresentable rt))"

text \<open>\<open>make([]float64, n)\<close>: the runtime panics when the length is negative or the size
  of \<open>8 * n\<close> bytes exceeds \<open>maxAlloc\<close>, and the program dies when the heap cannot
  provide that size. The new slice is zeroed.\<close>

definition makeFloat64s :: "Runtime \<Rightarrow> int \<Rightarrow> panic + (real list \<times> Runtime)" where
  "makeFloat64s rt n =
     (if n < 0 \<or> maxAlloc rt < 8 * n then Inl LenOutOfRange
      else if freeMemory rt < 8 * n then Inl OutOfMemory
      else Inr (replicate (nat n) 0, rt\<lparr>freeMemory := freeMemory rt - 8 * n\<rparr>))"

record Config =
  BaseFreq :: real
  FreqSpacing :: real
  Order :: int
  BaudRate :: real
  SampleRate :: int

definition DefaultConfig :: Config where
  "DefaultConfig =
     \<lparr>BaseFreq = 1000, FreqSpacing = 200, Order = 2, BaudRate = 100, SampleRate = 48000\<rparr>"

record Modem =
  config :: Config
  symbolPeriod :: int
  frequencies :: "real list"
  phase :: "real list"

subsection \<open>New\<close>

text \<open>The loop \<open>for i := 0; i < len(modem.frequencies); i++\<close> of \<open>New\<close>.\<close>

function fillFrequencies :: "Config \<Rightarrow> nat \<Rightarrow> real list \<Rightarrow> real list" where
  "fillFrequencies cfg i fs =
     (if i < length fs
      then fillFrequencies cfg (i + 1) (fs[i := BaseFreq cfg + real i * FreqSpacing cfg])
      else fs)"
  by pat_completeness auto
termination
  by (relation "measure (\<lambda>(cfg, i, fs). length fs - i)") auto

declare fillFrequencies.simps [simp del]

text \<open>The fields of the literal are evaluated in their order: the period, whose
  conversion cannot panic, then the two tables. A negative shift count panics.\<close>

definition New :: "Runtime \<Rightarrow> Config \<Rightarrow> panic + Modem" where
  "New rt cfg =
     (let p = float_to_int rt (quotient64 (SampleRate cfg) (BaudRate cfg))
      in if Order cfg < 0 then Inl NegativeShift
         else case makeFloat64s rt (shl1 (Order cfg)) of
                Inl e \<Rightarrow> Inl e
              | Inr (fs, rt1) \<Rightarrow>
                  (case makeFloat64s rt1 (shl1 (Order cfg)) of
                     Inl e \<Rightarrow> Inl e
                   | Inr (ph, rt2) \<Rightarrow>
                       Inr \<lparr>config = cfg, symbolPeriod = p,
                            frequencies = fillFrequencies cfg 0 fs, phase = ph\<rparr>))"

subsection \<open>Encode\<close>

text \<open>The inner loop \<open>for bit := 0; bit < bitsPerSymbol && bitIndex < totalBits; bit++\<close>
  of \<open>Encode\<close>; it returns the symbol and the advanced \<open>bitIndex\<close>.\<close>

function encodeBits :: "byte list \<Rightarrow> int \<Rightarrow> nat \<Rightarrow> nat \<Rightarrow> nat \<Rightarrow> int \<Rightarrow> int \<times> nat" where
  "encodeBits data bitsPerSymbol totalBits bitNo bitIndex symbol =
     (if int bitNo < bitsPerSymbol \<and> bitIndex < totalBits
      then let byteIdx = bitIndex div 8;
               bitInByte = 7 - (bitIndex mod 8)
           in encodeBits data bitsPerSymbol totalBits (bitNo + 1) (bitIndex + 1)
                (if (data ! byteIdx) AND (push_bit bitInByte 1) \<noteq> 0
                 then symbol OR shl1 (bitsPerSymbol - 1 - int bitNo)
                 else symbol)
      else (symbol, bitIndex))"
  by pat_completeness auto
termination
  by (relation "measure (\<lambda>(d, bps, tb, bitNo, bi, s). nat (bps - int bitNo))") auto

declare encodeBits.simps [simp del]

text \<open>The loop \<open>for sampleIdx := 0; sampleIdx < m.symbolPeriod; sampleIdx++\<close>: it writes
  the output buffer in place and advances the phase accumulator of the symbol.\<close>

function encodeSamples ::
  "int \<Rightarrow> nat \<Rightarrow> nat \<Rightarrow> real \<Rightarrow> nat \<Rightarrow> real list \<Rightarrow> real list \<Rightarrow> real list \<times> real list" where
  "encodeSamples period symbolIdx symbol phaseIncrement sampleIdx output ph =
     (if int sampleIdx < period
      then let outputIdx = int symbolIdx * period + int sampleIdx
           in if outputIdx < int (length output)
              then let output' = output[nat outputIdx := 0.5 * sin (ph ! symbol)];
                       ph1 = ph[symbol := ph ! symbol + phaseIncrement];
                       ph2 = (if ph1 ! symbol \<ge> 2 * pi
                              then ph1[symbol := ph1 ! symbol - 2 * pi] else ph1)
                   in encodeSamples period symbolIdx symbol phaseIncrement (sampleIdx + 1)
                        output' ph2
              else encodeSamples period symbolIdx symbol phaseIncrement (sampleIdx + 1)
                     output ph
      else (output, ph))"
  by pat_completeness auto
termination
  by (relation "measure (\<lambda>(p, si, s, inc, i, out, ph). nat (p - int i))") auto

declare encodeSamples.simps [simp del]

text \<open>The loop \<open>for symbolIdx := 0; symbolIdx < symbolCount; symbolIdx++\<close>.
  \<open>m.frequencies[symbol]\<close> panics out of range; so does \<open>m.phase[symbol]\<close>, which the
  sample loop reads in its first iteration, that is when the period is positive.\<close>

function encodeSymbols ::
  "Modem \<Rightarrow> byte list \<Rightarrow> int \<Rightarrow> nat \<Rightarrow> nat \<Rightarrow> real list \<Rightarrow> real list
     \<Rightarrow> panic + (real list \<times> real list)" where
  "encodeSymbols m data symbolCount symbolIdx bitIndex output ph =
     (if int symbolIdx < symbolCount
      then case encodeBits data (Order (config m)) (length data * 8) 0 bitIndex 0 of
             (symbol, bitIndex') \<Rightarrow>
               if symbol < 0 \<or> int (length (frequencies m)) \<le> symbol then Inl IndexOutOfRange
               else let freq = frequencies m ! nat symbol;
                        phaseIncrement = 2 * pi * freq / real_of_int (SampleRate (config m))
                    in if 0 < symbolPeriod m \<and> length ph \<le> nat symbol then Inl IndexOutOfRange
                       else case encodeSamples (symbolPeriod m) symbolIdx (nat symbol)
                                   phaseIncrement 0 output ph of
                              (output', ph') \<Rightarrow>
                                encodeSymbols m data symbolCount (symbolIdx + 1) bitIndex'
                                  output' ph'
      else Inr (output, ph))"
  by pat_completeness auto
termination
  by (relation "measure (\<lambda>(m, d, sc, si, bi, out, ph). nat (sc - int si))") auto

declare encodeSymbols.simps [simp del]

text \<open>\<open>Encode\<close> returns the samples and the modem with its advanced phase accumulators.
  The ceiling division panics for an order of 0.\<close>

definition Encode :: "Modem \<Rightarrow> byte list \<Rightarrow> panic + (real list \<times> Modem)" where
  "Encode m data =
     (let bitsPerSymbol = Order (config m);
          totalBits = length data * 8
      in if bitsPerSymbol = 0 then Inl DivideByZero
         else let symbolCount = quo (int totalBits + bitsPerSymbol - 1) bitsPerSymbol;
                  n = symbolCount * symbolPeriod m
              in if n < 0 then Inl LenOutOfRange
                 else case encodeSymbols m data symbolCount 0 0 (replicate (nat n) 0) (phase m) of
                        Inl e \<Rightarrow> Inl e
                      | Inr (output, ph) \<Rightarrow> Inr (output, m\<lparr>phase := ph\<rparr>))"

subsection \<open>Decode\<close>

text \<open>The loop of \<open>correlateWithFrequency\<close> over the samples of one window; the
  reference phase starts at 0.\<close>

fun correlateLoop :: "real \<Rightarrow> real list \<Rightarrow> real \<Rightarrow> real \<Rightarrow> real" where
  "correlateLoop phaseIncrement [] correlation ph = correlation"
| "correlateLoop phaseIncrement (sample # rest) correlation ph =
     (let reference = sin ph;
          correlation' = correlation + sample * reference;
          ph1 = ph + phaseIncrement
      in correlateLoop phaseIncrement rest correlation'
           (if ph1 \<ge> 2 * pi then ph1 - 2 * pi else ph1))"

definition correlateWithFrequency :: "Modem \<Rightarrow> real list \<Rightarrow> real \<Rightarrow> real" where
  "correlateWithFrequency m signal freq =
     (let phaseIncrement = 2 * pi * freq / real_of_int (SampleRate (config m))
      in \<bar>correlateLoop phaseIncrement signal 0 0\<bar> / real (length signal))"

text \<open>The loop \<open>for freqIdx, freq := range m.frequencies\<close> over the rest of the table.\<close>

fun detectLoop :: "Modem \<Rightarrow> real list \<Rightarrow> real list \<Rightarrow> nat \<Rightarrow> real \<Rightarrow> int \<Rightarrow> real \<times> int" where
  "detectLoop m window [] freqIdx maxCorrelation detectedSymbol =
     (maxCorrelation, detectedSymbol)"
| "detectLoop m window (freq # rest) freqIdx maxCorrelation detectedSymbol =
     (let correlation = correlateWithFrequency m window freq
      in if correlation > maxCorrelation
         then detectLoop m window rest (freqIdx + 1) correlation (int freqIdx)
         else detectLoop m window rest (freqIdx + 1) maxCorrelation detectedSymbol)"

definition detectSymbol :: "Modem \<Rightarrow> real list \<Rightarrow> int" where
  "detectSymbol m window = snd (detectLoop m window (frequencies m) 0 (- 1) 0)"

text \<open>The loop over the symbol periods; \<open>signal[start:end]\<close> is a \<open>take\<close> of a
  \<open>drop\<close>.\<close>

function decodeSymbols :: "Modem \<Rightarrow> real list \<Rightarrow> int \<Rightarrow> nat \<Rightarrow> int list \<Rightarrow> int list" where
  "decodeSymbols m signal symbolCount symbolIdx symbols =
     (if int symbolIdx < symbolCount
      then let start = int symbolIdx * symbolPeriod m;
               end0 = start + symbolPeriod m;
               end1 = (if end0 > int (length signal) then int (length signal) else end0)
           in decodeSymbols m signal symbolCount (symbolIdx + 1)
                (symbols[symbolIdx :=
                   detectSymbol m (take (nat end1 - nat start) (drop (nat start) signal))])
      else symbols)"
  by pat_completeness auto
termination
  by (relation "measure (\<lambda>(m, s, sc, si, syms). nat (sc - int si))") auto

declare decodeSymbols.simps [simp del]

text \<open>The inner loop of the reassembly, for one symbol.\<close>

function decodeBits :: "int \<Rightarrow> int \<Rightarrow> int \<Rightarrow> nat \<Rightarrow> nat \<Rightarrow> byte list \<Rightarrow> byte list \<times> nat" where
  "decodeBits bitsPerSymbol totalBits symbol bitNo bitIndex output =
     (if int bitNo < bitsPerSymbol \<and> int bitIndex < totalBits
      then let byteIdx = bitIndex div 8;
               bitInByte = 7 - (bitIndex mod 8)
           in decodeBits bitsPerSymbol totalBits symbol (bitNo + 1) (bitIndex + 1)
                (if symbol AND shl1 (bitsPerSymbol - 1 - int bitNo) \<noteq> 0
                 then output[byteIdx := (output ! byteIdx) OR (push_bit bitInByte 1)]
                 else output)
      else (output, bitIndex))"
  by pat_completeness auto
termination
  by (relation "measure (\<lambda>(bps, tb, s, bitNo, bi, out). nat (bps - int bitNo))") auto

declare decodeBits.simps [simp del]

text \<open>The loop \<open>for _, symbol := range symbols\<close>.\<close>

fun decodeBytes :: "int \<Rightarrow> int \<Rightarrow> int list \<Rightarrow> nat \<Rightarrow> byte list \<Rightarrow> byte list" where
  "decodeBytes bitsPerSymbol totalBits [] bitIndex output = output"
| "decodeBytes bitsPerSymbol totalBits (symbol # rest) bitIndex output =
     (case decodeBits bitsPerSymbol totalBits symbol 0 bitIndex output of
        (output', bitIndex') \<Rightarrow> decodeBytes bitsPerSymbol totalBits rest bitIndex' output')"

text \<open>\<open>Decode\<close>: the integer division panics for a period of 0, the two \<open>make\<close> for a
  negative length. The result \<open>nil\<close> is the empty list. \<open>Decode\<close> has no access to a
  field it could write, so it returns only the bytes.\<close>

definition Decode :: "Modem \<Rightarrow> real list \<Rightarrow> panic + byte list" where
  "Decode m signal =
     (if symbolPeriod m = 0 then Inl DivideByZero
      else let symbolCount = quo (int (length signal)) (symbolPeriod m)
           in if symbolCount = 0 then Inr []
              else if symbolCount < 0 then Inl LenOutOfRange
              else let symbols = decodeSymbols m signal symbolCount 0
                                   (replicate (nat symbolCount) 0);
                       bitsPerSymbol = Order (config m);
                       totalBits = symbolCount * bitsPerSymbol;
                       byteCount = quo (totalBits + 7) 8
                   in if byteCount < 0 then Inl LenOutOfRange
                      else Inr (decodeBytes bitsPerSymbol totalBits symbols 0
                                  (replicate (nat byteCount) 0)))"

section \<open>The duplex session and the channel registry (fsk/fsk.go, fsk/channels.go)\<close>

text \<open>
  The audio library is outside the repository. What a session needs from it is whether
  each of its five calls succeeds, so the host is a record of their results, \<open>None\<close>
  for success and \<open>Some code\<close> for the library's error. The capture and playback
  callbacks, the listener goroutine of \<open>JoinChannel\<close> and the locks are not modelled:
  each method below is one atomic step. A Go string is its list of bytes.
\<close>

type_synonym gostring = "byte list"

record AudioHost =
  initContext :: "int option"
  initCapture :: "int option"
  initPlayback :: "int option"
  startCapture :: "int option"
  startPlayback :: "int option"

datatype error =
    FailedInitContext int
  | FailedInitCapture int
  | FailedInitPlayback int
  | FailedStartCapture int
  | FailedStartPlayback int
  | FailedCreateSession int error
  | FailedStartSession int error
  | NotConnected int

datatype fault = Panic panic | CloseOfClosedChannel

record ChatSession =
  modem :: Modem
  ctx :: bool
  captureDevice :: bool
  playbackDevice :: bool
  capturedSamples :: "real list"
  playbackSignal :: "real list"
  playbackIndex :: "32 word"
  messageQueue :: "gostring list"
  queueClosed :: bool
  running :: bool

definition NewChatSession :: "Modem \<Rightarrow> AudioHost \<Rightarrow> error + ChatSession" where
  "NewChatSession m host =
     (case initContext host of
        Some err \<Rightarrow> Inl (FailedInitContext err)
      | None \<Rightarrow>
          Inr \<lparr>modem = m, ctx = True, captureDevice = False, playbackDevice = False,
                capturedSamples = [], playbackSignal = [], playbackIndex = 0,
                messageQueue = [], queueClosed = False, running = False\<rparr>)"

text \<open>\<open>Start\<close> returns at the first failing call and keeps the devices it has
  initialised by then.\<close>

definition Start :: "ChatSession \<Rightarrow> AudioHost \<Rightarrow> error option \<times> ChatSession" where
  "Start c host =
     (case initCapture host of
        Some err \<Rightarrow> (Some (FailedInitCapture err), c)
      | None \<Rightarrow>
          (let c1 = c\<lparr>captureDevice := True\<rparr>
           in (case initPlayback host of
                 Some err \<Rightarrow> (Some (FailedInitPlayback err), c1)
               | None \<Rightarrow>
                   (let c2 = c1\<lparr>playbackDevice := True\<rparr>
                    in (case startCapture host of
                          Some err \<Rightarrow> (Some (FailedStartCapture err), c2)
                        | None \<Rightarrow>
                            (case startPlayback host of
                               Some err \<Rightarrow> (Some (FailedStartPlayback err), c2)
                             | None \<Rightarrow> (None, c2\<lparr>running := True\<rparr>)))))))"

text \<open>\<open>ChatSession.SendMessage\<close>: the modem is reached through a pointer, so the
  phase accumulators that \<open>Encode\<close> advances stay advanced.\<close>

definition ChatSession_SendMessage :: "ChatSession \<Rightarrow> gostring \<Rightarrow> fault + ChatSession" where
  "ChatSession_SendMessage c message =
     (case Encode (modem c) message of
        Inl p \<Rightarrow> Inl (Panic p)
      | Inr (signal, m') \<Rightarrow>
          Inr (c\<lparr>modem := m', playbackSignal := signal, playbackIndex := 0\<rparr>))"

definition ReceiveMessages :: "ChatSession \<Rightarrow> gostring list" where
  "ReceiveMessages c = messageQueue c"

definition IsRunning :: "ChatSession \<Rightarrow> bool" where
  "IsRunning c = running c"

definition Stop :: "ChatSession \<Rightarrow> ChatSession" where
  "Stop c = c\<lparr>running := False, captureDevice := False, playbackDevice := False\<rparr>"

text \<open>\<open>close\<close> of a channel that is closed already panics.\<close>

definition ChatSession_Close :: "ChatSession \<Rightarrow> fault + ChatSession" where
  "ChatSession_Close c =
     (let c1 = (Stop c)\<lparr>ctx := False\<rparr>
      in if queueClosed c1 then Inl CloseOfClosedChannel
         else Inr (c1\<lparr>queueClosed := True\<rparr>))"

record ChannelConfig =
  ID :: int
  ChanBaseFreq :: real
  ChanFreqSpacing :: real
  Name :: gostring

record MultiChannelChat =
  channels :: "int \<rightharpoonup> ChatSession"
  activeChans :: "int list"
  username :: gostring

definition NewMultiChannelChat :: "gostring \<Rightarrow> MultiChannelChat" where
  "NewMultiChannelChat user = \<lparr>channels = Map.empty, activeChans = [], username = user\<rparr>"

definition JoinChannel ::
  "MultiChannelChat \<Rightarrow> Runtime \<Rightarrow> AudioHost \<Rightarrow> ChannelConfig \<Rightarrow> int \<Rightarrow> real
     \<Rightarrow> fault + (error option \<times> MultiChannelChat)" where
  "JoinChannel mc rt host channelConfig order baudRate =
     (let cfg = \<lparr>BaseFreq = ChanBaseFreq channelConfig,
                 FreqSpacing = ChanFreqSpacing channelConfig,
                 Order = order, BaudRate = baudRate, SampleRate = 48000\<rparr>
      in case New rt cfg of
           Inl p \<Rightarrow> Inl (Panic p)
         | Inr m \<Rightarrow>
             (case NewChatSession m host of
                Inl err \<Rightarrow> Inr (Some (FailedCreateSession (ID channelConfig) err), mc)
              | Inr chatSession \<Rightarrow>
                  (case Start chatSession host of
                     (Some err, c') \<Rightarrow>
                       Inr (Some (FailedStartSession (ID channelConfig) err), mc)
                   | (None, c') \<Rightarrow>
                       Inr (None,
                            mc\<lparr>channels := (channels mc)(ID channelConfig \<mapsto> c'),
                               activeChans := activeChans mc @ [ID channelConfig]\<rparr>))))"

text \<open>The loop of \<open>LeaveChannel\<close> that cuts the first occurrence of the id out of
  the slice and breaks.\<close>

fun removeActive :: "int \<Rightarrow> int list \<Rightarrow> int list" where
  "removeActive channelID [] = []"
| "removeActive channelID (x # rest) =
     (if x = channelID then rest else x # removeActive channelID rest)"

definition LeaveChannel ::
  "MultiChannelChat \<Rightarrow> int \<Rightarrow> fault + (error option \<times> MultiChannelChat)" where
  "LeaveChannel mc channelID =
     (case channels mc channelID of
        None \<Rightarrow> Inr (Some (NotConnected channelID), mc)
      | Some chatSession \<Rightarrow>
          (case ChatSession_Close chatSession of
             Inl f \<Rightarrow> Inl f
           | Inr released \<Rightarrow>
               Inr (None,
                    mc\<lparr>channels := (channels mc)(channelID := None),
                       activeChans := removeActive channelID (activeChans mc)\<rparr>)))"

text \<open>\<open>fmt.Sprintf("%s: %s", mc.username, message)\<close>.\<close>

definition fullMessage :: "gostring \<Rightarrow> gostring \<Rightarrow> gostring" where
  "fullMessage user message = user @ [0x3A, 0x20] @ message"

definition SendMessage ::
  "MultiChannelChat \<Rightarrow> int \<Rightarrow> gostring \<Rightarrow> fault + (error option \<times> MultiChannelChat)" where
  "SendMessage mc channelID message =
     (case channels mc channelID of
        None \<Rightarrow> Inr (Some (NotConnected channelID), mc)
      | Some chatSession \<Rightarrow>
          (case ChatSession_SendMessage chatSession (fullMessage (username mc) message) of
             Inl f \<Rightarrow> Inl f
           | Inr c' \<Rightarrow> Inr (None, mc\<lparr>channels := (channels mc)(channelID \<mapsto> c')\<rparr>)))"

text \<open>The loop of \<open>BroadcastMessage\<close> over its copy of the active list.\<close>

fun broadcastLoop ::
  "MultiChannelChat \<Rightarrow> gostring \<Rightarrow> int list \<Rightarrow> error option
     \<Rightarrow> fault + (error option \<times> MultiChannelChat)" where
  "broadcastLoop mc message [] lastErr = Inr (lastErr, mc)"
| "broadcastLoop mc message (channelID # rest) lastErr =
     (case SendMessage mc channelID message of
        Inl f \<Rightarrow> Inl f
      | Inr (err, mc') \<Rightarrow>
          broadcastLoop mc' message rest (if err \<noteq> None then err else lastErr))"

definition BroadcastMessage ::
  "MultiChannelChat \<Rightarrow> gostring \<Rightarrow> fault + (error option \<times> MultiChannelChat)" where
  "BroadcastMessage mc message = broadcastLoop mc message (activeChans mc) None"

definition GetActiveChannels :: "MultiChannelChat \<Rightarrow> int list" where
  "GetActiveChannels mc = activeChans mc"

text \<open>\<open>Close\<close> closes every session of the map, in no particular order, and empties
  the registry.\<close>

definition Close :: "MultiChannelChat \<Rightarrow> fault + MultiChannelChat" where
  "Close mc =
     (if \<exists>c \<in> ran (channels mc). queueClosed c then Inl CloseOfClosedChannel
      else Inr (mc\<lparr>channels := Map.empty, activeChans := []\<rparr>))"

section \<open>Notions used in the statements\<close>

text \<open>A host on which every call of the audio library succeeds.\<close>

definition okHost :: AudioHost where
  "okHost = \<lparr>initContext = None, initCapture = None, initPlayback = None,
             startCapture = None, startPlayback = None\<rparr>"

text \<open>A runtime for the examples: linux/amd64 with a gibibyte of free heap, where the
  conversion of a float without an \<open>int\<close> value gives the least \<open>int\<close>.\<close>

definition linuxAmd64 :: Runtime where
  "linuxAmd64 = \<lparr>maxAlloc = 2 ^ 48, freeMemory = 2 ^ 30, unrepresentable = - (2 ^ 63)\<rparr>"

text \<open>A modem on which \<open>Encode\<close> cannot panic: the order is between 1 and 62, the
  period is not negative, and both tables have room for every symbol of that order.\<close>

definition encodable :: "Modem \<Rightarrow> bool" where
  "encodable m \<longleftrightarrow>
     1 \<le> Order (config m) \<and> Order (config m) \<le> 62 \<and> 0 \<le> symbolPeriod m \<and>
     2 ^ nat (Order (config m)) \<le> length (frequencies m) \<and>
     2 ^ nat (Order (config m)) \<le> length (phase m)"

text \<open>Calls on a registry, and a run of them that stops at the first panic.\<close>

datatype call = Join Runtime AudioHost ChannelConfig int real | Leave int | CloseAll

fun step :: "MultiChannelChat \<Rightarrow> call \<Rightarrow> fault + MultiChannelChat" where
  "step mc (Join rt host channelConfig order baudRate) =
     (case JoinChannel mc rt host channelConfig order baudRate of
        Inl f \<Rightarrow> Inl f | Inr (err, mc') \<Rightarrow> Inr mc')"
| "step mc (Leave channelID) =
     (case LeaveChannel mc channelID of Inl f \<Rightarrow> Inl f | Inr (err, mc') \<Rightarrow> Inr mc')"
| "step mc CloseAll = Close mc"

fun run :: "MultiChannelChat \<Rightarrow> call list \<Rightarrow> fault + MultiChannelChat" where
  "run mc [] = Inr mc"
| "run mc (c # cs) = (case step mc c of Inl f \<Rightarrow> Inl f | Inr mc' \<Rightarrow> run mc' cs)"

text \<open>No \<open>JoinChannel\<close> of the run names an id that is active when it is called.\<close>

fun joinsInactive :: "MultiChannelChat \<Rightarrow> call list \<Rightarrow> bool" where
  "joinsInactive mc [] = True"
| "joinsInactive mc (c # cs) =
     ((case c of Join rt host channelConfig order baudRate \<Rightarrow>
                   ID channelConfig \<notin> set (GetActiveChannels mc)
               | _ \<Rightarrow> True)
      \<and> (case step mc c of Inl f \<Rightarrow> True | Inr mc' \<Rightarrow> joinsInactive mc' cs))"

definition consistent :: "MultiChannelChat \<Rightarrow> bool" where
  "consistent mc \<longleftrightarrow>
     set (GetActiveChannels mc) = dom (channels mc) \<and> distinct (GetActiveChannels mc)"

text \<open>\<open>n\<close> sends of one message through one session, and the last element of a list of
  errors, \<open>None\<close> for the empty list.\<close>

fun sendTimes :: "nat \<Rightarrow> ChatSession \<Rightarrow> gostring \<Rightarrow> fault + ChatSession" where
  "sendTimes 0 c message = Inr c"
| "sendTimes (Suc n) c message =
     (case ChatSession_SendMessage c message of
        Inl f \<Rightarrow> Inl f | Inr c' \<Rightarrow> sendTimes n c' message)"

fun lastError :: "error list \<Rightarrow> error option" where
  "lastError [] = None"
| "lastError (e # es) = Some (last (e # es))"

text \<open>Concrete values for the examples: a channel, the modem and the running session that
  \<open>JoinChannel\<close> builds for it, the registry after that join, a session in the middle of a
  transmission, and a registry whose active list names two ids that have no session.\<close>

definition channel1 :: ChannelConfig where
  "channel1 = \<lparr>ID = 1, ChanBaseFreq = 22000, ChanFreqSpacing = 500, Name = []\<rparr>"

definition modem1 :: Modem where
  "modem1 = \<lparr>config = \<lparr>BaseFreq = 22000, FreqSpacing = 500, Order = 2, BaudRate = 100,
                         SampleRate = 48000\<rparr>,
              symbolPeriod = 480, frequencies = [22000, 22500, 23000, 23500],
              phase = [0, 0, 0, 0]\<rparr>"

definition session1 :: ChatSession where
  "session1 = \<lparr>modem = modem1, ctx = True, captureDevice = True, playbackDevice = True,
                capturedSamples = [], playbackSignal = [], playbackIndex = 0,
                messageQueue = [], queueClosed = False, running = True\<rparr>"

definition joined1 :: MultiChannelChat where
  "joined1 = \<lparr>channels = [1 \<mapsto> session1], activeChans = [1], username = [0x75]\<rparr>"

definition inFlight :: ChatSession where
  "inFlight = session1\<lparr>capturedSamples := [0.25], playbackSignal := [0.5, 0, - 0.5],
                        playbackIndex := 2, messageQueue := [[0x6F, 0x6B]]\<rparr>"

definition strayed :: MultiChannelChat where
  "strayed = \<lparr>channels = [2 \<mapsto> session1], activeChans = [5, 2, 9], username = [0x75]\<rparr>"


text \<open>A run of \<open>Encode\<close> calls on one modem, each continuing from the phases the
  previous one left; it stops at the first panic.\<close>

fun encodeAll :: "Modem \<Rightarrow> byte list list \<Rightarrow> panic + Modem" where
  "encodeAll m [] = Inr m"
| "encodeAll m (data # rest) =
     (case Encode m data of Inl p \<Rightarrow> Inl p | Inr (signal, m') \<Rightarrow> encodeAll m' rest)"

text \<open>The symbols that \<open>Encode\<close> extracts: the outer loop of \<open>Encode\<close> without its
  waveform.\<close>

function symbolsFrom :: "byte list \<Rightarrow> int \<Rightarrow> int \<Rightarrow> nat \<Rightarrow> nat \<Rightarrow> int list" where
  "symbolsFrom data bitsPerSymbol symbolCount symbolIdx bitIndex =
     (if int symbolIdx < symbolCount
      then case encodeBits data bitsPerSymbol (length data * 8) 0 bitIndex 0 of
             (symbol, bitIndex') \<Rightarrow>
               symbol # symbolsFrom data bitsPerSymbol symbolCount (symbolIdx + 1) bitIndex'
      else [])"
  by pat_completeness auto
termination
  by (relation "measure (\<lambda>(d, bps, sc, si, bi). nat (sc - int si))") auto

declare symbolsFrom.simps [simp del]

definition sentSymbols :: "Modem \<Rightarrow> byte list \<Rightarrow> int list" where
  "sentSymbols m data =
     symbolsFrom data (Order (config m))
       (quo (int (length data * 8) + Order (config m) - 1) (Order (config m))) 0 0"

text \<open>The slice \<open>signal[start:end]\<close> that \<open>Decode\<close> correlates for one symbol index.\<close>

definition windowAt :: "Modem \<Rightarrow> real list \<Rightarrow> nat \<Rightarrow> real list" where
  "windowAt m signal symbolIdx =
     (let start = int symbolIdx * symbolPeriod m;
          end0 = start + symbolPeriod m;
          end1 = (if end0 > int (length signal) then int (length signal) else end0)
      in take (nat end1 - nat start) (drop (nat start) signal))"

text \<open>Every phase of the list lies in \<open>[0, 2\<pi>)\<close>.\<close>

definition wrapped :: "real list \<Rightarrow> bool" where
  "wrapped ph \<longleftrightarrow> (\<forall>p \<in> set ph. 0 \<le> p \<and> p < 2 * pi)"

text \<open>More concrete values: the modem that \<open>New\<close> builds for \<open>DefaultConfig\<close>, and a
  configuration with a negative base frequency and its modem.\<close>

definition defaultModem :: Modem where
  "defaultModem = \<lparr>config = DefaultConfig, symbolPeriod = 480,
                    frequencies = [1000, 1200, 1400, 1600], phase = [0, 0, 0, 0]\<rparr>"

definition negConfig :: Config where
  "negConfig = \<lparr>BaseFreq = - 1, FreqSpacing = 1, Order = 1, BaudRate = 4, SampleRate = 4\<rparr>"

definition negModem :: Modem where
  "negModem = \<lparr>config = negConfig, symbolPeriod = 1, frequencies = [- 1, 0], phase = [0, 0]\<rparr>"

text \<open>The slice \<open>symbols\<close> that \<open>Decode\<close> fills before it reassembles the bytes.\<close>

definition detectedSymbols :: "Modem \<Rightarrow> real list \<Rightarrow> int list" where
  "detectedSymbols m signal =
     (let symbolCount = quo (int (length signal)) (symbolPeriod m)
      in decodeSymbols m signal symbolCount 0 (replicate (nat symbolCount) 0))"

text \<open>Bit \<open>b\<close> of a byte sequence, counted from the most significant bit of the first
  byte.\<close>

definition byteBit :: "byte list \<Rightarrow> nat \<Rightarrow> bool" where
  "byteBit bytes b = bit (bytes ! (b div 8)) (7 - b mod 8)"

text \<open>Tones that are orthogonal over one symbol period: the frequencies of the table are
  pairwise distinct, and each lies strictly between 0 and half the sample rate and
  completes a whole number of cycles in a period.\<close>

definition orthogonalTones :: "Modem \<Rightarrow> bool" where
  "orthogonalTones m \<longleftrightarrow>
     0 < SampleRate (config m) \<and> 0 < symbolPeriod m \<and> distinct (frequencies m) \<and>
     (\<forall>f \<in> set (frequencies m).
        0 < f \<and> 2 * f < real_of_int (SampleRate (config m)) \<and>
        f * real_of_int (symbolPeriod m) / real_of_int (SampleRate (config m)) \<in> \<int>)"

text \<open>The bytes of \<open>Hello, FSK!\<close>, and the modem that \<open>New\<close> builds for a baud rate equal
  to the sample rate.\<close>

definition helloFSK :: "byte list" where
  "helloFSK = [0x48, 0x65, 0x6C, 0x6C, 0x6F, 0x2C, 0x20, 0x46, 0x53, 0x4B, 0x21]"

definition unitModem :: Modem where
  "unitModem = \<lparr>config = \<lparr>BaseFreq = 1000, FreqSpacing = 200, Order = 2, BaudRate = 48000,
                              SampleRate = 48000\<rparr>,
                 symbolPeriod = 1, frequencies = [1000, 1200, 1400, 1600],
                 phase = [0, 0, 0, 0]\<rparr>"

section \<open>Shifts and the loops of Encode\<close>



lemma sint_pow64: 
  assumes k: "k < 63" shows "sint ((2 :: 64 word) ^ k) = 2 ^ k"
proof -
  have lt: "(2::int) ^ k < 2 ^ 63"
    using k by (intro power_strict_increasing) simp_all
  have ge: "- ((2::int) ^ 63) \<le> 2 ^ k"
    by (rule order_trans [of _ 0]) simp_all
  have "signed_take_bit (63::nat) ((2::int) ^ k) = 2 ^ k"
    using ge lt by (rule signed_take_bit_int_eq_self)
  moreover have "((2 :: 64 word) ^ k) = word_of_int (2 ^ k)"
    by simp
  ultimately show ?thesis
    by (simp only: signed_of_int) simp
qed

lemma shl1_pow: "0 \<le> n \<Longrightarrow> n < 63 \<Longrightarrow> shl1 n = 2 ^ nat n"
  unfolding shl1_def by (simp add: sint_pow64)

lemma shl1_ge64: assumes "64 \<le> n" shows "shl1 n = 0"
proof -
  have "(2 :: 64 word) ^ nat n = 0"
    using assms by (simp add: exp_eq_zero_iff) 
  then show ?thesis
    unfolding shl1_def by (simp only: push_bit_eq_mult mult_1 sint_0)
qed

lemma encodeBits_stop:
  "\<not> (int bitNo < bps \<and> bi < tb) \<Longrightarrow> encodeBits data bps tb bitNo bi symbol = (symbol, bi)"
  by (subst encodeBits.simps) (auto simp: Let_def)

lemma encodeBits_step:
  "int bitNo < bps \<Longrightarrow> bi < tb \<Longrightarrow>
   encodeBits data bps tb bitNo bi symbol =
     encodeBits data bps tb (Suc bitNo) (Suc bi)
       (if (data ! (bi div 8)) AND (push_bit (7 - (bi mod 8)) 1) \<noteq> 0
        then symbol OR shl1 (bps - 1 - int bitNo) else symbol)"
  by (subst encodeBits.simps) (simp add: Let_def)

lemma encodeBits_range:
  assumes "bps \<le> 63" "0 \<le> symbol" "symbol < 2 ^ nat bps"
  shows "0 \<le> fst (encodeBits data bps tb bitNo bi symbol) \<and>
         fst (encodeBits data bps tb bitNo bi symbol) < 2 ^ nat bps"
  using assms
proof (induction data bps tb bitNo bi symbol rule: encodeBits.induct)
  case (1 data bps tb bitNo bi symbol)
  show ?case
  proof (cases "int bitNo < bps \<and> bi < tb")
    case False
    with "1.prems" show ?thesis by (simp add: encodeBits_stop)
  next
    case True
    let ?k = "bps - 1 - int bitNo"
    have k: "0 \<le> ?k" "?k < 63" "nat ?k < nat bps" using True "1.prems" by auto
    have sh: "shl1 ?k = 2 ^ nat ?k" using k by (simp add: shl1_pow)
    have lt: "(2::int) ^ nat ?k < 2 ^ nat bps"
      using k by (intro power_strict_increasing) simp_all
    let ?s = "(if (data ! (bi div 8)) AND (push_bit (7 - (bi mod 8)) 1) \<noteq> 0
                 then symbol OR shl1 ?k else symbol)"
    have "0 \<le> ?s \<and> ?s < 2 ^ nat bps"
      using "1.prems" sh lt by (auto intro: OR_upper)
    with "1.IH" [OF True refl refl "1.prems"(1)] True
    show ?thesis
      by (simp add: encodeBits_step)
  qed
qed

lemma encodeSamples_stop:
  "\<not> int sampleIdx < period \<Longrightarrow>
   encodeSamples period symbolIdx symbol inc sampleIdx out0 ph = (out0, ph)"
  by (subst encodeSamples.simps) simp

lemma encodeSamples_step:
  "int sampleIdx < period \<Longrightarrow>
   encodeSamples period symbolIdx symbol inc sampleIdx out0 ph =
     (if int symbolIdx * period + int sampleIdx < int (length out0)
      then encodeSamples period symbolIdx symbol inc (Suc sampleIdx)
             (out0[nat (int symbolIdx * period + int sampleIdx) := 0.5 * sin (ph ! symbol)])
             (if (ph[symbol := ph ! symbol + inc]) ! symbol \<ge> 2 * pi
              then (ph[symbol := ph ! symbol + inc])
                     [symbol := (ph[symbol := ph ! symbol + inc]) ! symbol - 2 * pi]
              else ph[symbol := ph ! symbol + inc])
      else encodeSamples period symbolIdx symbol inc (Suc sampleIdx) out0 ph)"
  by (subst encodeSamples.simps) (simp add: Let_def)

lemma length_encodeSamples:
  "length (fst (encodeSamples period symbolIdx symbol inc sampleIdx out0 ph)) = length out0 \<and>
   length (snd (encodeSamples period symbolIdx symbol inc sampleIdx out0 ph)) = length ph"
proof (induction period symbolIdx symbol inc sampleIdx out0 ph rule: encodeSamples.induct)
  case (1 period symbolIdx symbol inc sampleIdx out0 ph)
  show ?case
  proof (cases "int sampleIdx < period")
    case False
    then show ?thesis by (simp add: encodeSamples_stop)
  next
    case True
    with 1 show ?thesis
      by (simp add: encodeSamples_step Let_def)
  qed
qed

lemma encodeSymbols_stop:
  "\<not> int symbolIdx < symbolCount \<Longrightarrow>
   encodeSymbols m data symbolCount symbolIdx bitIndex out0 ph = Inr (out0, ph)"
  by (subst encodeSymbols.simps) simp

lemma encodeSymbols_step:
  assumes "int symbolIdx < symbolCount"
    and "encodeBits data (Order (config m)) (length data * 8) 0 bitIndex 0 = (symbol, bitIndex')"
    and "0 \<le> symbol" "symbol < int (length (frequencies m))"
    and "0 < symbolPeriod m \<longrightarrow> nat symbol < length ph"
    and "encodeSamples (symbolPeriod m) symbolIdx (nat symbol)
           (2 * pi * (frequencies m ! nat symbol) / real_of_int (SampleRate (config m)))
           0 out0 ph = (out1, ph1)"
  shows "encodeSymbols m data symbolCount symbolIdx bitIndex out0 ph =
           encodeSymbols m data symbolCount (Suc symbolIdx) bitIndex' out1 ph1"
  using assms by (subst encodeSymbols.simps) (auto simp add: Let_def)

lemma pow2_nat_int: "(2::nat) ^ n \<le> k \<Longrightarrow> (2::int) ^ n \<le> int k"
  by (metis of_nat_le_iff of_nat_numeral of_nat_power)

lemma encodeSymbols_total:
  assumes "Order (config m) \<le> 62" "0 \<le> Order (config m)"
    "2 ^ nat (Order (config m)) \<le> length (frequencies m)"
    "2 ^ nat (Order (config m)) \<le> length ph"
  shows "\<exists>out ph'. encodeSymbols m data symbolCount symbolIdx bitIndex out0 ph = Inr (out, ph')
           \<and> length out = length out0 \<and> length ph' = length ph"
  using assms
proof (induction m data symbolCount symbolIdx bitIndex out0 ph rule: encodeSymbols.induct)
  case (1 m data symbolCount symbolIdx bitIndex out0 ph)
  show ?case
  proof (cases "int symbolIdx < symbolCount")
    case False
    then show ?thesis by (simp add: encodeSymbols_stop)
  next
    case True
    obtain symbol bitIndex' where eb:
      "encodeBits data (Order (config m)) (length data * 8) 0 bitIndex 0 = (symbol, bitIndex')"
      by (cases "encodeBits data (Order (config m)) (length data * 8) 0 bitIndex 0")
    have rng: "0 \<le> symbol" "symbol < 2 ^ nat (Order (config m))"
      using encodeBits_range [of "Order (config m)" 0 data "length data * 8" 0 bitIndex] eb "1.prems"
      by simp_all
    have inF: "symbol < int (length (frequencies m))"
      using rng(2) pow2_nat_int [OF "1.prems"(3)] by linarith
    have inP': "symbol < int (length ph)"
      using rng(2) pow2_nat_int [OF "1.prems"(4)] by linarith
    then have inP: "nat symbol < length ph" using rng(1) by linarith
    obtain out1 ph1 where es:
      "encodeSamples (symbolPeriod m) symbolIdx (nat symbol)
         (2 * pi * (frequencies m ! nat symbol) / real_of_int (SampleRate (config m))) 0 out0 ph
       = (out1, ph1)"
      by (cases "encodeSamples (symbolPeriod m) symbolIdx (nat symbol)
         (2 * pi * (frequencies m ! nat symbol) / real_of_int (SampleRate (config m))) 0 out0 ph")
    have len: "length out1 = length out0" "length ph1 = length ph"
      using length_encodeSamples [of "symbolPeriod m" symbolIdx "nat symbol" _ 0 out0 ph] es
      by (metis fst_conv, metis snd_conv)
    have nF: "\<not> (symbol < 0 \<or> int (length (frequencies m)) \<le> symbol)"
      using rng(1) inF by simp
    have nP: "\<not> (0 < symbolPeriod m \<and> length ph \<le> nat symbol)"
      using inP by simp
    have "\<exists>out ph''. encodeSymbols m data symbolCount (symbolIdx + 1) bitIndex' out1 ph1 = Inr (out, ph'')
           \<and> length out = length out1 \<and> length ph'' = length ph1"
      using "1.IH" [OF True eb [symmetric] nF refl refl nP es [symmetric]]
        "1.prems" len by simp
    then show ?thesis
      using encodeSymbols_step [OF True eb rng(1) inF _ es] inP len
      by simp
  qed
qed

lemma quo_nonneg: "0 \<le> a \<Longrightarrow> 0 < b \<Longrightarrow> quo a b = a div b"
  by (cases "a = 0") (simp_all add: quo_def)

lemma Encode_phase_only:
  assumes "Encode m data = Inr (signal, m')"
  shows "m' = m\<lparr>phase := phase m'\<rparr>"
  using assms
  by (auto simp: Encode_def Let_def split: if_splits sum.splits prod.splits)

lemma Encode_total:
  assumes "encodable m"
  shows "\<exists>signal ph. Encode m data = Inr (signal, m\<lparr>phase := ph\<rparr>) \<and>
           length ph = length (phase m) \<and>
           int (length signal) =
             ((int (length data * 8) + Order (config m) - 1) div Order (config m)) * symbolPeriod m"
proof -
  let ?bps = "Order (config m)"
  let ?sc = "quo (int (length data * 8) + ?bps - 1) ?bps"
  from assms have b: "1 \<le> ?bps" "?bps \<le> 62" "0 \<le> symbolPeriod m"
    and f: "2 ^ nat ?bps \<le> length (frequencies m)" and p: "2 ^ nat ?bps \<le> length (phase m)"
    by (simp_all add: encodable_def)
  have sc: "?sc = (int (length data * 8) + ?bps - 1) div ?bps"
    using b by (intro quo_nonneg) simp_all
  have sc0: "0 \<le> ?sc" unfolding sc using b by (simp add: pos_imp_zdiv_nonneg_iff)
  then have n0: "0 \<le> ?sc * symbolPeriod m" using b by simp
  obtain out ph where es:
    "encodeSymbols m data ?sc 0 0 (replicate (nat (?sc * symbolPeriod m)) 0) (phase m) = Inr (out, ph)"
    and len: "length out = nat (?sc * symbolPeriod m)" "length ph = length (phase m)"
    using encodeSymbols_total [of m "phase m" data ?sc 0 0 "replicate (nat (?sc * symbolPeriod m)) 0"]
      b f p by auto
  have "Encode m data = Inr (out, m\<lparr>phase := ph\<rparr>)"
    using b n0 es by (simp add: Encode_def Let_def)
  moreover have "int (length out) = ?sc * symbolPeriod m" using len n0 by simp
  ultimately show ?thesis using len sc by auto
qed

lemma encodable_phase: "length ph = length (phase m) \<Longrightarrow> encodable (m\<lparr>phase := ph\<rparr>) = encodable m"
  by (simp add: encodable_def)


section \<open>New on concrete configurations\<close>

lemma fillFrequencies_eq:
  "i \<le> length fs \<Longrightarrow>
   fillFrequencies cfg i fs =
     take i fs @ map (\<lambda>k. BaseFreq cfg + real k * FreqSpacing cfg) [i..<length fs]"
proof (induction cfg i fs rule: fillFrequencies.induct)
  case (1 cfg i fs)
  show ?case
  proof (cases "i < length fs")
    case False
    with "1.prems" show ?thesis by (subst fillFrequencies.simps) simp
  next
    case True
    have "fillFrequencies cfg i fs =
            fillFrequencies cfg (i + 1) (fs[i := BaseFreq cfg + real i * FreqSpacing cfg])"
      using True by (subst fillFrequencies.simps) simp
    also have "\<dots> = take (i + 1) (fs[i := BaseFreq cfg + real i * FreqSpacing cfg]) @
                 map (\<lambda>k. BaseFreq cfg + real k * FreqSpacing cfg) [i + 1..<length fs]"
      using "1.IH" [OF True] True by simp
    also have "\<dots> = take i fs @ map (\<lambda>k. BaseFreq cfg + real k * FreqSpacing cfg) [i..<length fs]"
      using True by (simp add: take_Suc_conv_app_nth upt_conv_Cons)
    finally show ?thesis .
  qed
qed

lemma fill4: "fillFrequencies \<lparr>BaseFreq = 22000, FreqSpacing = 500, Order = 2, BaudRate = 100, SampleRate = 48000\<rparr> 0 (replicate 4 0) = [22000, 22500, 23000, 23500]"
  by (simp add: fillFrequencies_eq upt_conv_Cons)

lemma roundHalfEven_int: "roundHalfEven (real_of_int k) = k"
  by (simp add: roundHalfEven_def)

lemma floor_log2_powi:
  assumes "2 powi e \<le> x" and "x < 2 powi (e + 1)"
  shows "\<lfloor>log 2 x\<rfloor> = e"
proof -
  have pos: "0 < x"
    using assms(1) by (smt (verit) zero_less_power_int)
  have "(2::real) powr real_of_int e = 2 powi e"
    and "(2::real) powr (real_of_int e + 1) = 2 powi (e + 1)"
    using powr_real_of_int' [of 2 e] powr_real_of_int' [of 2 "e + 1"] by simp_all
  with assms pos show ?thesis
    by (simp add: floor_log_eq_powr_iff)
qed

text \<open>A real with a significand of 53 bits and an exponent in the normal range is a
  binary64 number, and rounding leaves it as it is.\<close>

lemma round64_exact:
  assumes lo: "2 powi e \<le> \<bar>x\<bar>" and hi: "\<bar>x\<bar> < 2 powi (e + 1)"
    and e: "- 1022 \<le> e" "e \<le> 1023"
    and k: "x = real_of_int k * 2 powi (e - 52)"
  shows "round64 x = Some x"
proof -
  have x0: "x \<noteq> 0"
    using lo by (smt (verit) zero_less_power_int)
  have fl: "\<lfloor>log 2 \<bar>x\<bar>\<rfloor> = e"
    by (rule floor_log2_powi [OF lo hi])
  have mx: "max e (- 1022) = e"
    using e by simp
  have u0: "(2::real) powi (e - 52) \<noteq> 0"
    by simp
  have q: "x / 2 powi (e - 52) = real_of_int k"
    using k u0 by simp
  have "(2::real) powi (e + 1) \<le> 2 powi 1024"
    using e by (intro power_int_increasing) auto
  then have b: "\<bar>x\<bar> < 2 ^ 1024"
    using hi by simp
  show ?thesis
    unfolding round64_def Let_def fl mx q roundHalfEven_int
    using x0 b k by simp
qed

lemma round64_480: "round64 480 = Some 480"
  by (rule round64_exact [where e = 8 and k = "480 * 2 ^ 44"]) simp_all

lemma round64_48000: "round64 48000 = Some 48000"
  by (rule round64_exact [where e = 15 and k = "48000 * 2 ^ 37"]) simp_all

lemma quotient64_48000_100: "quotient64 48000 100 = Some 480"
  by (simp add: quotient64_def round64_48000 round64_480)

lemma New_eval:
  "New linuxAmd64 \<lparr>BaseFreq = b, FreqSpacing = s, Order = 2, BaudRate = 100, SampleRate = 48000\<rparr> = 
    Inr \<lparr>config = \<lparr>BaseFreq = b, FreqSpacing = s, Order = 2, BaudRate = 100, SampleRate = 48000\<rparr>,
         symbolPeriod = 480,
         frequencies = fillFrequencies \<lparr>BaseFreq = b, FreqSpacing = s, Order = 2, BaudRate = 100, SampleRate = 48000\<rparr> 0 (replicate 4 0),
         phase = replicate 4 0\<rparr>"
  by (simp add: New_def float_to_int_def quotient64_48000_100 truncInt_def shl1_def
      makeFloat64s_def linuxAmd64_def Let_def)

lemma New_channel1: "New linuxAmd64 \<lparr>BaseFreq = 22000, FreqSpacing = 500, Order = 2, BaudRate = 100, SampleRate = 48000\<rparr> = Inr modem1"
  by (simp add: New_eval fill4 modem1_def) (simp add: numeral_eq_Suc)

lemma quotient64_zero: "quotient64 48000 0 = None"
  by (simp add: quotient64_def round64_48000)

lemma New_baud0:
  "New linuxAmd64 \<lparr>BaseFreq = 22000, FreqSpacing = 500, Order = 2, BaudRate = 0, SampleRate = 48000\<rparr> =
     Inr (modem1\<lparr>config := \<lparr>BaseFreq = 22000, FreqSpacing = 500, Order = 2, BaudRate = 0,
                               SampleRate = 48000\<rparr>,
                  symbolPeriod := - (2 ^ 63)\<rparr>)"
  by (simp add: New_def float_to_int_def quotient64_zero shl1_def makeFloat64s_def linuxAmd64_def
      Let_def modem1_def fillFrequencies_eq upt_conv_Cons)
     (simp add: numeral_eq_Suc)

lemma encodable_modem1: "encodable modem1"
  by (simp add: encodable_def modem1_def)


section \<open>The duplex session\<close>

text \<open>
  C9. Whatever the state of the session, also in the middle of a transmission, a
  \<open>SendMessage\<close> that returns has put the samples that \<open>Encode\<close> produced for the message
  in the outbound buffer and the play cursor at 0; the captured samples, the inbound queue,
  the running flag, the devices and the configuration, period and frequency table of the
  modem are as before. The phase accumulators of the modem are advanced by that \<open>Encode\<close>.
  On a session whose modem is \<open>encodable\<close>, \<open>SendMessage\<close> returns.
\<close>

theorem SendMessage_last_write_wins:
  "(ChatSession_SendMessage c message = Inr c' \<longrightarrow>
      (\<exists>signal ph. Encode (modem c) message = Inr (signal, (modem c)\<lparr>phase := ph\<rparr>) \<and>
         playbackSignal c' = signal \<and> playbackIndex c' = 0 \<and>
         capturedSamples c' = capturedSamples c \<and> messageQueue c' = messageQueue c \<and>
         queueClosed c' = queueClosed c \<and> running c' = running c \<and> ctx c' = ctx c \<and>
         captureDevice c' = captureDevice c \<and> playbackDevice c' = playbackDevice c \<and>
         modem c' = (modem c)\<lparr>phase := ph\<rparr>)) \<and>
   (encodable (modem c) \<longrightarrow> (\<exists>c''. ChatSession_SendMessage c message = Inr c''))"
proof (intro conjI impI)
  assume s: "ChatSession_SendMessage c message = Inr c'"
  then obtain signal m' where e: "Encode (modem c) message = Inr (signal, m')"
    and c': "c' = c\<lparr>modem := m', playbackSignal := signal, playbackIndex := 0\<rparr>"
    by (auto simp: ChatSession_SendMessage_def split: sum.splits prod.splits)
  from Encode_phase_only [OF e] have "m' = (modem c)\<lparr>phase := phase m'\<rparr>" .
  with e c' show "\<exists>signal ph. Encode (modem c) message = Inr (signal, (modem c)\<lparr>phase := ph\<rparr>) \<and>
         playbackSignal c' = signal \<and> playbackIndex c' = 0 \<and>
         capturedSamples c' = capturedSamples c \<and> messageQueue c' = messageQueue c \<and>
         queueClosed c' = queueClosed c \<and> running c' = running c \<and> ctx c' = ctx c \<and>
         captureDevice c' = captureDevice c \<and> playbackDevice c' = playbackDevice c \<and>
         modem c' = (modem c)\<lparr>phase := ph\<rparr>"
    by (intro exI [of _ signal] exI [of _ "phase m'"]) simp
next
  assume "encodable (modem c)"
  from Encode_total [OF this, of message]
  show "\<exists>c''. ChatSession_SendMessage c message = Inr c''"
    by (auto simp: ChatSession_SendMessage_def)
qed

theorem SendMessage_last_write_wins_witness:
  "encodable (modem inFlight) \<and>
   (\<exists>c'. ChatSession_SendMessage inFlight [0x68, 0x69] = Inr c' \<and>
      length (playbackSignal c') = 3840 \<and> playbackIndex c' = 0 \<and>
      capturedSamples c' = [0.25] \<and> messageQueue c' = [[0x6F, 0x6B]] \<and> running c')"
proof -
  have enc: "encodable (modem inFlight)"
    by (simp add: inFlight_def session1_def encodable_modem1)
  with SendMessage_last_write_wins [of inFlight "[0x68, 0x69]"]
  obtain c' where s: "ChatSession_SendMessage inFlight [0x68, 0x69] = Inr c'"
    by blast
  with SendMessage_last_write_wins [of inFlight "[0x68, 0x69]" c']
  obtain signal ph where
    e: "Encode (modem inFlight) [0x68, 0x69] = Inr (signal, (modem inFlight)\<lparr>phase := ph\<rparr>)"
    and p: "playbackSignal c' = signal" "playbackIndex c' = 0"
      "capturedSamples c' = capturedSamples inFlight" "messageQueue c' = messageQueue inFlight"
      "running c' = running inFlight"
    by blast
  from Encode_total [OF enc, of "[0x68, 0x69]"] e
  have "int (length signal) = 3840"
    by (simp add: inFlight_def session1_def modem1_def)
  with s p enc show ?thesis
    by (simp add: inFlight_def session1_def)
qed


section \<open>The registry\<close>

lemma removeActive_remove1: "removeActive x xs = remove1 x xs"
  by (induction xs) auto

lemma JoinChannel_cases:
  assumes "JoinChannel mc rt host cc order baudRate = Inr (err, mc')"
  shows "(err \<noteq> None \<and> mc' = mc) \<or>
         (err = None \<and> (\<exists>c. mc' = mc\<lparr>channels := (channels mc)(ID cc \<mapsto> c),
                                      activeChans := activeChans mc @ [ID cc]\<rparr>))"
  using assms
  by (auto simp: JoinChannel_def Let_def split: sum.splits prod.splits option.splits)

lemma LeaveChannel_cases:
  assumes "LeaveChannel mc channelID = Inr (err, mc')"
  shows "(err \<noteq> None \<and> mc' = mc) \<or>
         (err = None \<and> mc' = mc\<lparr>channels := (channels mc)(channelID := None),
                                activeChans := remove1 channelID (activeChans mc)\<rparr>)"
  using assms
  by (auto simp: LeaveChannel_def removeActive_remove1 split: sum.splits option.splits)

lemma step_consistent:
  assumes "consistent mc" and "step mc c = Inr mc'"
    and "\<And>rt host cc order baudRate. c = Join rt host cc order baudRate \<Longrightarrow> ID cc \<notin> set (GetActiveChannels mc)"
  shows "consistent mc'"
proof (cases c)
  case (Join rt host cc order baudRate)
  with assms(2) obtain err where j: "JoinChannel mc rt host cc order baudRate = Inr (err, mc')"
    by (auto split: sum.splits prod.splits)
  from assms(3) [OF Join] have "ID cc \<notin> set (activeChans mc)"
    by (simp add: GetActiveChannels_def)
  with JoinChannel_cases [OF j] assms(1) show ?thesis
    by (auto simp: consistent_def GetActiveChannels_def)
next
  case (Leave channelID)
  with assms(2) obtain err where l: "LeaveChannel mc channelID = Inr (err, mc')"
    by (auto split: sum.splits prod.splits)
  with LeaveChannel_cases [OF l] assms(1) show ?thesis
    by (auto simp: consistent_def GetActiveChannels_def split: if_splits)
next
  case CloseAll
  with assms(2) show ?thesis
    by (auto simp: consistent_def GetActiveChannels_def Close_def split: if_splits)
qed

lemma run_consistent:
  "consistent mc \<Longrightarrow> joinsInactive mc cs \<Longrightarrow> run mc cs = Inr mc' \<Longrightarrow> consistent mc'"
proof (induction cs arbitrary: mc)
  case Nil
  then show ?case by simp
next
  case (Cons c cs)
  from Cons.prems(3) obtain mc1 where s: "step mc c = Inr mc1" and r: "run mc1 cs = Inr mc'"
    by (auto split: sum.splits)
  from Cons.prems(2) s have j: "joinsInactive mc1 cs"
    and f: "\<And>rt host cc order baudRate. c = Join rt host cc order baudRate \<Longrightarrow> ID cc \<notin> set (GetActiveChannels mc)"
    by auto
  from step_consistent [OF Cons.prems(1) s f] have "consistent mc1" .
  from Cons.IH [OF this j r] show ?case .
qed

text \<open>
  C10. On a registry made by \<open>NewMultiChannelChat\<close>, after any run of \<open>JoinChannel\<close>,
  \<open>LeaveChannel\<close> and \<open>Close\<close> in which no join names an id that is active at the
  time, the list that \<open>GetActiveChannels\<close> returns has no duplicates and holds exactly
  the keys of the channels map.
\<close>

theorem registry_consistent:
  assumes "joinsInactive (NewMultiChannelChat user) cs"
    and "run (NewMultiChannelChat user) cs = Inr mc"
  shows "set (GetActiveChannels mc) = dom (channels mc) \<and> distinct (GetActiveChannels mc)"
proof -
  have "consistent (NewMultiChannelChat user)"
    by (simp add: consistent_def NewMultiChannelChat_def GetActiveChannels_def)
  from run_consistent [OF this assms] show ?thesis
    by (simp add: consistent_def)
qed

theorem registry_consistent_witness:
  "joinsInactive (NewMultiChannelChat [])
     [Join linuxAmd64 okHost \<lparr>ID = 1, ChanBaseFreq = 22000, ChanFreqSpacing = 500, Name = []\<rparr> 2 100,
      Join linuxAmd64 (okHost\<lparr>startPlayback := Some 3\<rparr>) \<lparr>ID = 2, ChanBaseFreq = 24000, ChanFreqSpacing = 500, Name = []\<rparr> 2 100,
      Join linuxAmd64 okHost \<lparr>ID = 2, ChanBaseFreq = 24000, ChanFreqSpacing = 500, Name = []\<rparr> 2 100,
      Leave 1, Leave 7] \<and>
   (\<exists>mc. run (NewMultiChannelChat [])
     [Join linuxAmd64 okHost \<lparr>ID = 1, ChanBaseFreq = 22000, ChanFreqSpacing = 500, Name = []\<rparr> 2 100,
      Join linuxAmd64 (okHost\<lparr>startPlayback := Some 3\<rparr>) \<lparr>ID = 2, ChanBaseFreq = 24000, ChanFreqSpacing = 500, Name = []\<rparr> 2 100,
      Join linuxAmd64 okHost \<lparr>ID = 2, ChanBaseFreq = 24000, ChanFreqSpacing = 500, Name = []\<rparr> 2 100,
      Leave 1, Leave 7] = Inr mc \<and> GetActiveChannels mc = [2] \<and>
     set (GetActiveChannels mc) = dom (channels mc) \<and> distinct (GetActiveChannels mc))"
proof -
  let ?cs = "[Join linuxAmd64 okHost \<lparr>ID = 1, ChanBaseFreq = 22000, ChanFreqSpacing = 500, Name = []\<rparr> 2 100,
      Join linuxAmd64 (okHost\<lparr>startPlayback := Some 3\<rparr>) \<lparr>ID = 2, ChanBaseFreq = 24000, ChanFreqSpacing = 500, Name = []\<rparr> 2 100,
      Join linuxAmd64 okHost \<lparr>ID = 2, ChanBaseFreq = 24000, ChanFreqSpacing = 500, Name = []\<rparr> 2 100,
      Leave 1, Leave 7]"
  have j: "joinsInactive (NewMultiChannelChat []) ?cs"
    by (simp add: NewMultiChannelChat_def JoinChannel_def LeaveChannel_def New_eval
        NewChatSession_def Start_def okHost_def GetActiveChannels_def ChatSession_Close_def Stop_def)
  obtain mc where r: "run (NewMultiChannelChat []) ?cs = Inr mc" and a: "GetActiveChannels mc = [2]"
    by (simp add: NewMultiChannelChat_def JoinChannel_def LeaveChannel_def New_eval
        NewChatSession_def Start_def okHost_def GetActiveChannels_def ChatSession_Close_def Stop_def)
  from registry_consistent [OF j r] j r a show ?thesis by blast
qed

lemma join1: "JoinChannel (NewMultiChannelChat [0x75]) linuxAmd64 okHost channel1 2 100 = Inr (None, joined1)"
  by (simp add: JoinChannel_def New_channel1 channel1_def NewChatSession_def Start_def okHost_def
      joined1_def session1_def NewMultiChannelChat_def)

text \<open>
  C7. When \<open>New\<close> returns a modem, which it does for every baud rate, 0 too, unless the
  order makes it panic, and the creation of the session or the start of its devices returns
  an error, \<open>JoinChannel\<close> returns that error, wrapped with the channel id,
  and the registry it was called on, unchanged: neither the map nor the active list has
  gained the id. If the id had no session before the call, a \<open>SendMessage\<close> to it then
  fails with the not-connected error.
\<close>

theorem JoinChannel_failure_atomic:
  assumes "New rt \<lparr>BaseFreq = ChanBaseFreq channelConfig, FreqSpacing = ChanFreqSpacing channelConfig,
                Order = order, BaudRate = baudRate, SampleRate = 48000\<rparr> = Inr m"
    and "NewChatSession m host = Inl err \<or>
         (\<exists>c. NewChatSession m host = Inr c \<and> fst (Start c host) = Some err)"
  shows "JoinChannel mc rt host channelConfig order baudRate =
           Inr (Some (case NewChatSession m host of
                        Inl e \<Rightarrow> FailedCreateSession (ID channelConfig) err
                      | Inr c \<Rightarrow> FailedStartSession (ID channelConfig) err), mc) \<and>
           (channels mc (ID channelConfig) = None \<longrightarrow>
              SendMessage mc (ID channelConfig) message =
                Inr (Some (NotConnected (ID channelConfig)), mc))"
  using assms
  by (auto simp: JoinChannel_def SendMessage_def split: sum.splits prod.splits option.splits)

text \<open>
  The last part needs its condition. Channel 1 is joined; a second join of channel 1 fails
  on the capture device and leaves the registry as it was, with channel 1 in it; the send
  to channel 1 that follows returns no error.
\<close>

theorem JoinChannel_failure_counterexample:
  "JoinChannel (NewMultiChannelChat [0x75]) linuxAmd64 okHost channel1 2 100 = Inr (None, joined1) \<and>
   JoinChannel joined1 linuxAmd64 (okHost\<lparr>initCapture := Some 1\<rparr>) channel1 2 100 =
     Inr (Some (FailedStartSession 1 (FailedInitCapture 1)), joined1) \<and>
   map_sum id fst (SendMessage joined1 1 [0x68, 0x69]) = Inr None"
proof -
  have "JoinChannel joined1 linuxAmd64 (okHost\<lparr>initCapture := Some 1\<rparr>) channel1 2 100 =
     Inr (Some (FailedStartSession 1 (FailedInitCapture 1)), joined1)"
    by (simp add: JoinChannel_def New_channel1 channel1_def NewChatSession_def Start_def okHost_def)
  moreover have "map_sum id fst (SendMessage joined1 1 [0x68, 0x69]) = Inr None"
  proof -
    obtain signal ph where
      "Encode modem1 (fullMessage [0x75] [0x68, 0x69]) = Inr (signal, modem1\<lparr>phase := ph\<rparr>)"
      using Encode_total [OF encodable_modem1] by blast
    then show ?thesis
      by (simp add: SendMessage_def joined1_def ChatSession_SendMessage_def session1_def)
  qed
  ultimately show ?thesis using join1 by simp
qed

theorem JoinChannel_failure_atomic_witness:
  "New linuxAmd64 \<lparr>BaseFreq = ChanBaseFreq channel1, FreqSpacing = ChanFreqSpacing channel1,
                Order = 2, BaudRate = 100, SampleRate = 48000\<rparr> = Inr modem1 \<and>
   fst (Start (session1\<lparr>captureDevice := False, playbackDevice := False, running := False\<rparr>)
         (okHost\<lparr>startPlayback := Some 3\<rparr>)) = Some (FailedStartPlayback 3) \<and>
   JoinChannel (NewMultiChannelChat [0x75]) linuxAmd64 (okHost\<lparr>startPlayback := Some 3\<rparr>) channel1 2 100 =
     Inr (Some (FailedStartSession 1 (FailedStartPlayback 3)), NewMultiChannelChat [0x75]) \<and>
   SendMessage (NewMultiChannelChat [0x75]) 1 [0x68, 0x69] =
     Inr (Some (NotConnected 1), NewMultiChannelChat [0x75]) \<and>
   (\<exists>m. New linuxAmd64 \<lparr>BaseFreq = ChanBaseFreq channel1, FreqSpacing = ChanFreqSpacing channel1,
                Order = 2, BaudRate = 0, SampleRate = 48000\<rparr> = Inr m \<and>
        symbolPeriod m = - (2 ^ 63) \<and>
        NewChatSession m (okHost\<lparr>initContext := Some 5\<rparr>) = Inl (FailedInitContext 5)) \<and>
   JoinChannel (NewMultiChannelChat [0x75]) linuxAmd64 (okHost\<lparr>initContext := Some 5\<rparr>) channel1 2 0 =
     Inr (Some (FailedCreateSession 1 (FailedInitContext 5)), NewMultiChannelChat [0x75])"
proof -
  have n: "New linuxAmd64 \<lparr>BaseFreq = ChanBaseFreq channel1, FreqSpacing = ChanFreqSpacing channel1,
                Order = 2, BaudRate = 100, SampleRate = 48000\<rparr> = Inr modem1"
    by (simp add: channel1_def New_channel1)
  have c: "NewChatSession modem1 (okHost\<lparr>startPlayback := Some 3\<rparr>) =
             Inr (session1\<lparr>captureDevice := False, playbackDevice := False, running := False\<rparr>)"
    by (simp add: NewChatSession_def okHost_def session1_def)
  have s: "fst (Start (session1\<lparr>captureDevice := False, playbackDevice := False, running := False\<rparr>)
         (okHost\<lparr>startPlayback := Some 3\<rparr>)) = Some (FailedStartPlayback 3)"
    by (simp add: Start_def okHost_def)
  have "NewChatSession modem1 (okHost\<lparr>startPlayback := Some 3\<rparr>) = Inl (FailedStartPlayback 3) \<or>
         (\<exists>c. NewChatSession modem1 (okHost\<lparr>startPlayback := Some 3\<rparr>) = Inr c \<and>
              fst (Start c (okHost\<lparr>startPlayback := Some 3\<rparr>)) = Some (FailedStartPlayback 3))"
    using c s by simp
  from JoinChannel_failure_atomic [OF n this, of "NewMultiChannelChat [0x75]" "[0x68, 0x69]"]
  have first: "JoinChannel (NewMultiChannelChat [0x75]) linuxAmd64 (okHost\<lparr>startPlayback := Some 3\<rparr>) channel1 2 100 =
     Inr (Some (FailedStartSession 1 (FailedStartPlayback 3)), NewMultiChannelChat [0x75]) \<and>
   SendMessage (NewMultiChannelChat [0x75]) 1 [0x68, 0x69] =
     Inr (Some (NotConnected 1), NewMultiChannelChat [0x75])"
    using c by (simp add: channel1_def NewMultiChannelChat_def)
  let ?m = "modem1\<lparr>config := \<lparr>BaseFreq = 22000, FreqSpacing = 500, Order = 2, BaudRate = 0,
                               SampleRate = 48000\<rparr>,
                  symbolPeriod := - (2 ^ 63)\<rparr>"
  have n0: "New linuxAmd64 \<lparr>BaseFreq = ChanBaseFreq channel1, FreqSpacing = ChanFreqSpacing channel1,
                Order = 2, BaudRate = 0, SampleRate = 48000\<rparr> = Inr ?m"
    by (simp add: channel1_def New_baud0)
  have c0: "NewChatSession ?m (okHost\<lparr>initContext := Some 5\<rparr>) = Inl (FailedInitContext 5)"
    by (simp add: NewChatSession_def okHost_def)
  then have "NewChatSession ?m (okHost\<lparr>initContext := Some 5\<rparr>) = Inl (FailedInitContext 5) \<or>
         (\<exists>c. NewChatSession ?m (okHost\<lparr>initContext := Some 5\<rparr>) = Inr c \<and>
              fst (Start c (okHost\<lparr>initContext := Some 5\<rparr>)) = Some (FailedInitContext 5))"
    by simp
  from JoinChannel_failure_atomic [OF n0 this, of "NewMultiChannelChat [0x75]" "[0x68, 0x69]"]
  have second: "JoinChannel (NewMultiChannelChat [0x75]) linuxAmd64 (okHost\<lparr>initContext := Some 5\<rparr>) channel1 2 0 =
     Inr (Some (FailedCreateSession 1 (FailedInitContext 5)), NewMultiChannelChat [0x75])"
    using c0 by (simp add: channel1_def NewMultiChannelChat_def)
  have "symbolPeriod ?m = - (2 ^ 63)" by simp
  with n0 c0 have third: "\<exists>m. New linuxAmd64 \<lparr>BaseFreq = ChanBaseFreq channel1, FreqSpacing = ChanFreqSpacing channel1,
                Order = 2, BaudRate = 0, SampleRate = 48000\<rparr> = Inr m \<and>
        symbolPeriod m = - (2 ^ 63) \<and>
        NewChatSession m (okHost\<lparr>initContext := Some 5\<rparr>) = Inl (FailedInitContext 5)"
    by blast
  from n s first second third show ?thesis by blast
qed

lemma SendMessage_cases:
  assumes "SendMessage mc channelID message = Inr (err, mc')"
  shows "(channels mc channelID = None \<and> err = Some (NotConnected channelID) \<and> mc' = mc) \<or>
         (\<exists>c c'. channels mc channelID = Some c \<and>
                  ChatSession_SendMessage c (fullMessage (username mc) message) = Inr c' \<and>
                  err = None \<and> mc' = mc\<lparr>channels := (channels mc)(channelID \<mapsto> c')\<rparr>)"
  using assms
  by (auto simp: SendMessage_def split: option.splits sum.splits)

lemma broadcastLoop_frame:
  assumes "broadcastLoop mc message ids lastErr = Inr (err, mc')"
  shows "activeChans mc' = activeChans mc \<and> username mc' = username mc \<and>
         dom (channels mc') = dom (channels mc)"
  using assms
proof (induction ids arbitrary: mc lastErr)
  case Nil
  then show ?case by simp
next
  case (Cons a ids)
  from Cons.prems obtain e1 mc1 where
    s: "SendMessage mc a message = Inr (e1, mc1)" and
    r: "broadcastLoop mc1 message ids (if e1 \<noteq> None then e1 else lastErr) = Inr (err, mc')"
    by (auto split: sum.splits prod.splits)
  from SendMessage_cases [OF s] Cons.IH [OF r] show ?case by (auto split: if_splits)
qed

lemma broadcastLoop_err:
  assumes "broadcastLoop mc message ids lastErr = Inr (err, mc')"
  shows "err = (case lastError [NotConnected i. i \<leftarrow> ids, channels mc i = None] of
                  None \<Rightarrow> lastErr | Some e \<Rightarrow> Some e)"
  using assms
proof (induction ids arbitrary: mc lastErr)
  case Nil
  then show ?case by simp
next
  case (Cons a ids)
  from Cons.prems obtain e1 mc1 where
    s: "SendMessage mc a message = Inr (e1, mc1)" and
    r: "broadcastLoop mc1 message ids (if e1 \<noteq> None then e1 else lastErr) = Inr (err, mc')"
    by (auto split: sum.splits prod.splits)
  note ih = Cons.IH [OF r]
  from SendMessage_cases [OF s] show ?case
  proof (elim disjE conjE exE)
    assume n: "channels mc a = None" and e1: "e1 = Some (NotConnected a)" and mc1: "mc1 = mc"
    show ?thesis
      using ih n e1 mc1
      by (cases "[NotConnected i. i \<leftarrow> ids, channels mc i = None]") auto
  next
    fix c c'
    assume c: "channels mc a = Some c"
      and e1: "e1 = None" and mc1: "mc1 = mc\<lparr>channels := (channels mc)(a \<mapsto> c')\<rparr>"
    have same: "[NotConnected i. i \<leftarrow> ids, channels mc1 i = None] =
                [NotConnected i. i \<leftarrow> ids, channels mc i = None]"
      using c mc1 by (intro arg_cong [where f = concat] map_cong) auto
    show ?thesis
      using ih c e1 same by simp
  qed
qed

lemma broadcastLoop_sends:
  assumes "broadcastLoop mc message ids lastErr = Inr (err, mc')"
    and "channels mc i = Some c"
  shows "\<exists>c'. channels mc' i = Some c' \<and>
           sendTimes (count_list ids i) c (fullMessage (username mc) message) = Inr c'"
  using assms
proof (induction ids arbitrary: mc lastErr c)
  case Nil
  then show ?case by simp
next
  case (Cons a ids)
  from Cons.prems obtain e1 mc1 where
    s: "SendMessage mc a message = Inr (e1, mc1)" and
    r: "broadcastLoop mc1 message ids (if e1 \<noteq> None then e1 else lastErr) = Inr (err, mc')"
    by (auto split: sum.splits prod.splits)
  from SendMessage_cases [OF s] show ?case
  proof (elim disjE conjE exE)
    assume n: "channels mc a = None" and mc1: "mc1 = mc"
    then have "a \<noteq> i" using Cons.prems(2) by auto
    with Cons.IH [OF r [unfolded mc1] Cons.prems(2)] show ?thesis by simp
  next
    fix ca ca'
    assume ca: "channels mc a = Some ca"
      and sc: "ChatSession_SendMessage ca (fullMessage (username mc) message) = Inr ca'"
      and mc1: "mc1 = mc\<lparr>channels := (channels mc)(a \<mapsto> ca')\<rparr>"
    have u: "username mc1 = username mc" using mc1 by simp
    show ?thesis
    proof (cases "i = a")
      case True
      then have "channels mc1 i = Some ca'" using mc1 by simp
      from Cons.IH [OF r this] True ca sc Cons.prems(2) u show ?thesis by simp
    next
      case False
      then have "channels mc1 i = Some c" using mc1 Cons.prems(2) by simp
      from Cons.IH [OF r this] False u show ?thesis by simp
    qed
  qed
qed

lemma broadcastLoop_total:
  assumes "\<forall>c \<in> ran (channels mc). encodable (modem c)"
  shows "\<exists>r. broadcastLoop mc message ids lastErr = Inr r"
  using assms
proof (induction ids arbitrary: mc lastErr)
  case Nil
  then show ?case by simp
next
  case (Cons a ids)
  show ?case
  proof (cases "channels mc a")
    case None
    then have "SendMessage mc a message = Inr (Some (NotConnected a), mc)"
      by (simp add: SendMessage_def)
    with Cons.IH [OF Cons.prems] show ?thesis by simp
  next
    case (Some c)
    then have enc: "encodable (modem c)" using Cons.prems by (auto simp: ran_def)
    from Encode_total [OF enc, of "fullMessage (username mc) message"]
    obtain signal ph where
      e: "Encode (modem c) (fullMessage (username mc) message) = Inr (signal, (modem c)\<lparr>phase := ph\<rparr>)"
      and len: "length ph = length (phase (modem c))"
      by blast
    let ?c' = "c\<lparr>modem := (modem c)\<lparr>phase := ph\<rparr>, playbackSignal := signal, playbackIndex := 0\<rparr>"
    let ?mc1 = "mc\<lparr>channels := (channels mc)(a \<mapsto> ?c')\<rparr>"
    have s: "SendMessage mc a message = Inr (None, ?mc1)"
      using Some e by (simp add: SendMessage_def ChatSession_SendMessage_def)
    have "encodable (modem ?c')" using enc len by (simp add: encodable_phase)
    then have "\<forall>c \<in> ran (channels ?mc1). encodable (modem c)"
      using Cons.prems by (auto simp: ran_def split: if_splits)
    from Cons.IH [OF this] s show ?thesis by simp
  qed
qed

text \<open>
  C8. A \<open>BroadcastMessage\<close> that returns has sent to every id of the active list that has
  a session, once per occurrence of the id in the list, whether or not the sends to other
  ids failed; the sessions of the map are the same ids as before. Its result is the error
  of the last id of the list that has no session, and no error when every id has one, so
  one failure and several give the same result when the last failing id is the same. When
  every session of the map has an \<open>encodable\<close> modem, \<open>BroadcastMessage\<close> returns.
\<close>

theorem BroadcastMessage_last_error:
  "(BroadcastMessage mc message = Inr (err, mc') \<longrightarrow>
      err = lastError [NotConnected i. i \<leftarrow> GetActiveChannels mc, channels mc i = None] \<and>
      dom (channels mc') = dom (channels mc) \<and>
      (\<forall>i c. channels mc i = Some c \<longrightarrow>
         (\<exists>c'. channels mc' i = Some c' \<and>
            sendTimes (count_list (GetActiveChannels mc) i) c
              (fullMessage (username mc) message) = Inr c'))) \<and>
   ((\<forall>c \<in> ran (channels mc). encodable (modem c)) \<longrightarrow>
      (\<exists>r. BroadcastMessage mc message = Inr r))"
proof (intro conjI impI allI)
  assume b: "BroadcastMessage mc message = Inr (err, mc')"
  from broadcastLoop_err [OF b [unfolded BroadcastMessage_def]]
  show "err = lastError [NotConnected i. i \<leftarrow> GetActiveChannels mc, channels mc i = None]"
    by (auto simp: GetActiveChannels_def split: option.splits)
  from broadcastLoop_frame [OF b [unfolded BroadcastMessage_def]]
  show "dom (channels mc') = dom (channels mc)" by simp
next
  fix i c
  assume b: "BroadcastMessage mc message = Inr (err, mc')" and c: "channels mc i = Some c"
  from broadcastLoop_sends [OF b [unfolded BroadcastMessage_def] c]
  show "\<exists>c'. channels mc' i = Some c' \<and>
            sendTimes (count_list (GetActiveChannels mc) i) c
              (fullMessage (username mc) message) = Inr c'"
    by (simp add: GetActiveChannels_def)
next
  assume "\<forall>c \<in> ran (channels mc). encodable (modem c)"
  from broadcastLoop_total [OF this] show "\<exists>r. BroadcastMessage mc message = Inr r"
    by (simp add: BroadcastMessage_def)
qed

theorem BroadcastMessage_last_error_witness:
  "ran (channels strayed) = {session1} \<and> encodable (modem session1) \<and>
   (\<exists>mc'. BroadcastMessage strayed [0x68, 0x69] = Inr (Some (NotConnected 9), mc') \<and>
      (\<exists>c'. channels mc' 2 = Some c' \<and>
         sendTimes 1 session1 (fullMessage [0x75] [0x68, 0x69]) = Inr c')) \<and>
   (\<exists>mc'. BroadcastMessage (strayed\<lparr>activeChans := [2, 9]\<rparr>) [0x68, 0x69] =
            Inr (Some (NotConnected 9), mc'))"
proof -
  have r: "ran (channels strayed) = {session1}"
    by (simp add: strayed_def)
  have enc: "encodable (modem session1)"
    by (simp add: session1_def encodable_modem1)
  have all: "\<forall>c \<in> ran (channels strayed). encodable (modem c)"
    using r enc by simp
  have all2: "\<forall>c \<in> ran (channels (strayed\<lparr>activeChans := [2, 9]\<rparr>)). encodable (modem c)"
    using r enc by simp
  from BroadcastMessage_last_error [of strayed "[0x68, 0x69]"] all
  obtain err mc' where b: "BroadcastMessage strayed [0x68, 0x69] = Inr (err, mc')"
    by fastforce
  have c2: "channels strayed 2 = Some session1"
    by (simp add: strayed_def)
  have n: "count_list (GetActiveChannels strayed) 2 = 1" "username strayed = [0x75]"
    by (simp_all add: strayed_def GetActiveChannels_def)
  from BroadcastMessage_last_error [of strayed "[0x68, 0x69]" err mc'] b
  have e: "err = Some (NotConnected 9)"
    and "\<forall>i c. channels strayed i = Some c \<longrightarrow>
         (\<exists>c'. channels mc' i = Some c' \<and>
            sendTimes (count_list (GetActiveChannels strayed) i) c
              (fullMessage (username strayed) [0x68, 0x69]) = Inr c')"
    by (simp_all add: strayed_def GetActiveChannels_def)
  with c2 n have s': "\<exists>c'. channels mc' 2 = Some c' \<and>
         sendTimes 1 session1 (fullMessage [0x75] [0x68, 0x69]) = Inr c'"
    by metis
  from BroadcastMessage_last_error [of "strayed\<lparr>activeChans := [2, 9]\<rparr>" "[0x68, 0x69]"] all2
  obtain err2 mc2 where
    b2: "BroadcastMessage (strayed\<lparr>activeChans := [2, 9]\<rparr>) [0x68, 0x69] = Inr (err2, mc2)"
    by fastforce
  from BroadcastMessage_last_error [of "strayed\<lparr>activeChans := [2, 9]\<rparr>" "[0x68, 0x69]" err2 mc2] b2
  have e2: "err2 = Some (NotConnected 9)"
    by (simp_all add: strayed_def GetActiveChannels_def)
  from r enc b e s' b2 e2 show ?thesis by blast
qed

section \<open>The modem\<close>

subsection \<open>New\<close>

lemma length_fillFrequencies: "length (fillFrequencies cfg i fs) = length fs"
  by (induction cfg i fs rule: fillFrequencies.induct)
     (subst fillFrequencies.simps, simp)

lemma nth_fillFrequencies:
  "i < length fs \<Longrightarrow>
   fillFrequencies cfg 0 fs ! i = BaseFreq cfg + real i * FreqSpacing cfg"
  by (simp add: fillFrequencies_eq)

lemma truncInt_bounds: "\<bar>x\<bar> < 2 ^ 63 \<Longrightarrow> - (2 ^ 63) \<le> truncInt x \<and> truncInt x < 2 ^ 63"
  unfolding truncInt_def
  by (auto simp: floor_less_iff le_ceiling_iff le_floor_iff ceiling_less_iff abs_less_iff)

lemma round64_3: "round64 3 = Some 3"
  by (rule round64_exact [where e = 1 and k = "3 * 2 ^ 51"]) simp_all

lemma round64_3_2: "round64 (3 / 2) = Some (3 / 2)"
  by (rule round64_exact [where e = 0 and k = "3 * 2 ^ 51"]) simp_all

lemma round64_4: "round64 4 = Some 4"
  by (rule round64_exact [where e = 2 and k = "2 ^ 52"]) simp_all

lemma round64_1: "round64 1 = Some 1"
  by (rule round64_exact [where e = 0 and k = "2 ^ 52"]) simp_all

lemma makeFloat64s_pow:
  assumes "0 \<le> n" and "n \<le> 62" and "8 * 2 ^ nat n \<le> maxAlloc rt"
    and "8 * 2 ^ nat n \<le> freeMemory rt"
  shows "makeFloat64s rt (shl1 n) =
           Inr (replicate (2 ^ nat n) 0, rt\<lparr>freeMemory := freeMemory rt - 8 * 2 ^ nat n\<rparr>)"
proof -
  have sh: "shl1 n = 2 ^ nat n"
    using assms(1,2) by (intro shl1_pow) simp_all
  have "nat (2 ^ nat n :: int) = 2 ^ nat n"
    by (simp add: nat_power_eq)
  then show ?thesis
    using assms(3,4) unfolding makeFloat64s_def sh by simp
qed

text \<open>
  C3. Take a configuration with an order from 1 to 62 whose two tables the runtime can
  allocate: \<open>8 * 2 ^ Order\<close> bytes each, which \<open>maxAlloc\<close> has to admit and the heap has to
  provide twice. Let the float64 quotient \<open>float64(SampleRate) / BaudRate\<close> be a finite
  number \<open>q\<close> within the range of \<open>int\<close>. Then \<open>New\<close> returns a modem. Its symbol period
  is \<open>q\<close> with the fraction cut off, towards zero; its frequency table has \<open>2 ^ Order\<close>
  entries, entry \<open>i\<close> is \<open>BaseFreq + i * FreqSpacing\<close>, and it has as many phase
  accumulators, all 0.
\<close>

theorem New_derives_period_and_table:
  assumes "1 \<le> Order cfg" and "Order cfg \<le> 62"
    and "8 * 2 ^ nat (Order cfg) \<le> maxAlloc rt"
    and "16 * 2 ^ nat (Order cfg) \<le> freeMemory rt"
    and "quotient64 (SampleRate cfg) (BaudRate cfg) = Some q" and "\<bar>q\<bar> < 2 ^ 63"
  shows "\<exists>m. New rt cfg = Inr m \<and> config m = cfg \<and>
           symbolPeriod m = truncInt q \<and>
           length (frequencies m) = 2 ^ nat (Order cfg) \<and>
           (\<forall>i < 2 ^ nat (Order cfg).
              frequencies m ! i = BaseFreq cfg + real i * FreqSpacing cfg) \<and>
           phase m = replicate (2 ^ nat (Order cfg)) 0"
proof -
  let ?n = "(2::nat) ^ nat (Order cfg)"
  let ?rt1 = "rt\<lparr>freeMemory := freeMemory rt - 8 * 2 ^ nat (Order cfg)\<rparr>"
  have o: "0 \<le> Order cfg" "\<not> Order cfg < 0"
    using assms(1) by simp_all
  have p: "(0::int) < 2 ^ nat (Order cfg)"
    by simp
  have f1: "8 * 2 ^ nat (Order cfg) \<le> freeMemory rt"
    using assms(4) p by linarith
  have f2: "8 * 2 ^ nat (Order cfg) \<le> freeMemory ?rt1"
    using assms(4) by simp
  have a2: "8 * 2 ^ nat (Order cfg) \<le> maxAlloc ?rt1"
    using assms(3) by simp
  have m1: "makeFloat64s rt (shl1 (Order cfg)) = Inr (replicate ?n 0, ?rt1)"
    by (rule makeFloat64s_pow [OF o(1) assms(2,3) f1])
  have m2: "makeFloat64s ?rt1 (shl1 (Order cfg)) =
              Inr (replicate ?n 0, ?rt1\<lparr>freeMemory := freeMemory ?rt1 - 8 * 2 ^ nat (Order cfg)\<rparr>)"
    by (rule makeFloat64s_pow [OF o(1) assms(2) a2 f2])
  have fi: "float_to_int rt (Some q) = truncInt q"
    using truncInt_bounds [OF assms(6)] by (simp add: float_to_int_def Let_def)
  let ?m = "\<lparr>config = cfg, symbolPeriod = truncInt q,
             frequencies = fillFrequencies cfg 0 (replicate ?n 0), phase = replicate ?n 0\<rparr>"
  have new: "New rt cfg = Inr ?m"
    unfolding New_def Let_def assms(5) fi m1 using o(2) by (simp add: m2)
  show ?thesis
    using new
    by (intro exI [of _ ?m]) (simp add: length_fillFrequencies nth_fillFrequencies)
qed

theorem New_derives_period_and_table_witness:
  "(1::int) \<le> Order DefaultConfig \<and> Order DefaultConfig \<le> 62 \<and>
   8 * 2 ^ nat (Order DefaultConfig) \<le> maxAlloc linuxAmd64 \<and>
   16 * 2 ^ nat (Order DefaultConfig) \<le> freeMemory linuxAmd64 \<and>
   quotient64 (SampleRate DefaultConfig) (BaudRate DefaultConfig) = Some 480 \<and>
   (\<exists>m. New linuxAmd64 DefaultConfig = Inr m \<and> symbolPeriod m = 480 \<and>
        frequencies m = [1000, 1200, 1400, 1600] \<and> phase m = [0, 0, 0, 0])"
proof -
  have h: "1 \<le> Order DefaultConfig" "Order DefaultConfig \<le> 62"
    "8 * 2 ^ nat (Order DefaultConfig) \<le> maxAlloc linuxAmd64"
    "16 * 2 ^ nat (Order DefaultConfig) \<le> freeMemory linuxAmd64"
    "quotient64 (SampleRate DefaultConfig) (BaudRate DefaultConfig) = Some 480"
    "\<bar>480 :: real\<bar> < 2 ^ 63"
    by (simp_all add: DefaultConfig_def linuxAmd64_def quotient64_48000_100)
  from New_derives_period_and_table [OF h]
  obtain m where m: "New linuxAmd64 DefaultConfig = Inr m"
    and p: "symbolPeriod m = truncInt 480"
    and l: "length (frequencies m) = 2 ^ nat (Order DefaultConfig)"
    and f: "\<forall>i < 2 ^ nat (Order DefaultConfig).
              frequencies m ! i = BaseFreq DefaultConfig + real i * FreqSpacing DefaultConfig"
    and ph: "phase m = replicate (2 ^ nat (Order DefaultConfig)) 0"
    by blast
  have "symbolPeriod m = 480" using p by (simp add: truncInt_def)
  moreover have "frequencies m = [1000, 1200, 1400, 1600]"
  proof (rule nth_equalityI)
    show "length (frequencies m) = length [1000, 1200, 1400, 1600 :: real]"
      using l by (simp add: DefaultConfig_def)
    fix i assume "i < length (frequencies m)"
    then have "i < 4" using l by (simp add: DefaultConfig_def)
    then have "i = 0 \<or> i = 1 \<or> i = 2 \<or> i = 3" by arith
    moreover have "frequencies m ! i = 1000 + real i * 200"
      using f \<open>i < 4\<close> by (simp add: DefaultConfig_def)
    ultimately show "frequencies m ! i = [1000, 1200, 1400, 1600] ! i"
      by auto
  qed
  moreover have "phase m = [0, 0, 0, 0]"
    using ph by (simp add: DefaultConfig_def numeral_eq_Suc)
  ultimately show ?thesis using h(1-5) m by blast
qed

text \<open>
  The period is not the rounded quotient: 3 samples per second at 2 symbols per second give
  a period of 1, and 1.5 rounds to 2. The order has an upper bound: \<open>1 << 64\<close> is 0, so an
  order of 64 gives an empty table; \<open>1 << 63\<close> is negative, so an order of 63 panics; and
  on linux/amd64 the \<open>8 * 2 ^ 46\<close> bytes of an order of 46 exceed \<open>maxAlloc\<close>, so that
  order panics too.
\<close>

theorem New_round_counterexample:
  "map_sum id symbolPeriod
     (New linuxAmd64 \<lparr>BaseFreq = 1000, FreqSpacing = 200, Order = 2, BaudRate = 2, SampleRate = 3\<rparr>) = Inr 1 \<and>
   round (real_of_int 3 / 2) = 2 \<and>
   map_sum id frequencies
     (New linuxAmd64 \<lparr>BaseFreq = 1000, FreqSpacing = 200, Order = 64, BaudRate = 100, SampleRate = 48000\<rparr>) = Inr [] \<and>
   New linuxAmd64 \<lparr>BaseFreq = 1000, FreqSpacing = 200, Order = 63, BaudRate = 100, SampleRate = 48000\<rparr> =
     Inl LenOutOfRange \<and>
   New linuxAmd64 \<lparr>BaseFreq = 1000, FreqSpacing = 200, Order = 46, BaudRate = 100, SampleRate = 48000\<rparr> =
     Inl LenOutOfRange"
proof -
  have t: "truncInt (3 / 2) = 1" by (simp add: truncInt_def; linarith?)
  have q: "quotient64 3 2 = Some (3 / 2)"
    by (simp add: quotient64_def round64_3 round64_3_2)
  have "map_sum id symbolPeriod
     (New linuxAmd64 \<lparr>BaseFreq = 1000, FreqSpacing = 200, Order = 2, BaudRate = 2, SampleRate = 3\<rparr>) = Inr 1"
    by (simp add: New_def float_to_int_def q t Let_def shl1_def makeFloat64s_def linuxAmd64_def)
  moreover have "round (3 / 2 :: real) = 2" by (simp add: round_def; linarith?)
  moreover have "map_sum id frequencies
     (New linuxAmd64 \<lparr>BaseFreq = 1000, FreqSpacing = 200, Order = 64, BaudRate = 100, SampleRate = 48000\<rparr>) = Inr []"
    by (simp add: New_def Let_def shl1_def makeFloat64s_def linuxAmd64_def fillFrequencies_eq)
  moreover have "New linuxAmd64 \<lparr>BaseFreq = 1000, FreqSpacing = 200, Order = 63, BaudRate = 100, SampleRate = 48000\<rparr> =
     Inl LenOutOfRange"
    by (simp add: New_def Let_def shl1_def makeFloat64s_def linuxAmd64_def)
  moreover have "shl1 46 = 2 ^ 46"
    using shl1_pow [of 46] by simp
  then have "New linuxAmd64 \<lparr>BaseFreq = 1000, FreqSpacing = 200, Order = 46, BaudRate = 100, SampleRate = 48000\<rparr> =
     Inl LenOutOfRange"
    by (simp add: New_def Let_def makeFloat64s_def linuxAmd64_def)
  ultimately show ?thesis by simp
qed

lemma New_DefaultConfig: "New linuxAmd64 DefaultConfig = Inr defaultModem"
  unfolding DefaultConfig_def defaultModem_def
  by (simp add: New_eval fillFrequencies_eq upt_conv_Cons) (simp add: numeral_eq_Suc)

lemma encodable_defaultModem: "encodable defaultModem"
  by (simp add: encodable_def defaultModem_def DefaultConfig_def)

lemma quotient64_4_4: "quotient64 4 4 = Some 1"
  by (simp add: quotient64_def round64_4 round64_1)

lemma New_negConfig: "New linuxAmd64 negConfig = Inr negModem"
  by (simp add: New_def negConfig_def negModem_def float_to_int_def quotient64_4_4 truncInt_def
      Let_def shl1_def makeFloat64s_def linuxAmd64_def fillFrequencies_eq upt_conv_Cons
      numeral_2_eq_2)


subsection \<open>Decode does not read the phase accumulators\<close>

lemma correlateWithFrequency_phase [simp]:
  "correlateWithFrequency (m\<lparr>phase := ph\<rparr>) window freq = correlateWithFrequency m window freq"
  by (simp add: correlateWithFrequency_def)

lemma detectLoop_phase [simp]:
  "detectLoop (m\<lparr>phase := ph\<rparr>) window fs k mx d = detectLoop m window fs k mx d"
  by (induction fs arbitrary: k mx d) (simp_all add: Let_def)

lemma detectSymbol_phase [simp]:
  "detectSymbol (m\<lparr>phase := ph\<rparr>) window = detectSymbol m window"
  by (simp add: detectSymbol_def)

lemma decodeSymbols_stop:
  "\<not> int symbolIdx < symbolCount \<Longrightarrow>
   decodeSymbols m signal symbolCount symbolIdx symbols = symbols"
  by (subst decodeSymbols.simps) simp

lemma decodeSymbols_step:
  "int symbolIdx < symbolCount \<Longrightarrow>
   decodeSymbols m signal symbolCount symbolIdx symbols =
     decodeSymbols m signal symbolCount (Suc symbolIdx)
       (symbols[symbolIdx := detectSymbol m (windowAt m signal symbolIdx)])"
  by (subst decodeSymbols.simps) (simp add: Let_def windowAt_def)

lemma windowAt_phase [simp]: "windowAt (m\<lparr>phase := ph\<rparr>) signal k = windowAt m signal k"
  by (simp add: windowAt_def)

lemma decodeSymbols_phase [simp]:
  "decodeSymbols (m\<lparr>phase := ph\<rparr>) signal symbolCount symbolIdx symbols =
   decodeSymbols m signal symbolCount symbolIdx symbols"
proof (induction "nat (symbolCount - int symbolIdx)" arbitrary: symbolIdx symbols)
  case 0
  then show ?case by (simp add: decodeSymbols_stop)
next
  case (Suc n)
  then have lt: "int symbolIdx < symbolCount" and n: "n = nat (symbolCount - int (Suc symbolIdx))"
    by auto
  from Suc.hyps(1) [OF n] lt show ?case
    by (simp add: decodeSymbols_step)
qed

lemma Decode_phase: "Decode (m\<lparr>phase := ph\<rparr>) signal = Decode m signal"
  by (simp add: Decode_def Let_def)

lemma encodeAll_phase_only:
  "encodeAll m datas = Inr m' \<Longrightarrow> m' = m\<lparr>phase := phase m'\<rparr>"
proof (induction datas arbitrary: m)
  case Nil
  then show ?case by simp
next
  case (Cons d ds)
  then obtain signal m1 where e: "Encode m d = Inr (signal, m1)" and r: "encodeAll m1 ds = Inr m'"
    by (auto split: sum.splits)
  from Encode_phase_only [OF e] Cons.IH [OF r] show ?case
    by (metis Modem.surjective Modem.update_convs(4))
qed

text \<open>
  C6. \<open>Decode\<close> returns bytes and nothing else; it reads the configuration, the period and
  the frequency table of the modem and starts every correlation at phase 0. Any run of
  \<open>Encode\<close> calls changes the phase accumulators only, so \<open>Decode\<close> of a buffer gives the
  same result before and after the run.
\<close>

theorem Decode_deterministic:
  assumes "encodeAll m datas = Inr m'"
  shows "Decode m' signal = Decode m signal"
  using encodeAll_phase_only [OF assms] Decode_phase [of "phase m'" m signal] by simp

lemma encodeAll_total: "encodable m \<Longrightarrow> \<exists>m'. encodeAll m datas = Inr m'"
proof (induction datas arbitrary: m)
  case Nil
  then show ?case by simp
next
  case (Cons d ds)
  from Encode_total [OF Cons.prems, of d] obtain signal ph where
    e: "Encode m d = Inr (signal, m\<lparr>phase := ph\<rparr>)" and l: "length ph = length (phase m)"
    by blast
  from Cons.prems l have "encodable (m\<lparr>phase := ph\<rparr>)" by (simp add: encodable_phase)
  from Cons.IH [OF this] e show ?case by simp
qed

theorem Decode_deterministic_witness:
  "\<exists>m'. encodeAll defaultModem [[0x68, 0x69], [0x21]] = Inr m' \<and>
        Decode m' (replicate 1000 0.5) = Decode defaultModem (replicate 1000 0.5)"
proof -
  obtain m' where e: "encodeAll defaultModem [[0x68, 0x69], [0x21]] = Inr m'"
    using encodeAll_total [OF encodable_defaultModem] by blast
  from Decode_deterministic [OF e] e show ?thesis by blast
qed

subsection \<open>The phase accumulators stay wrapped\<close>

lemma wrapped_update:
  "wrapped ph \<Longrightarrow> 0 \<le> p \<Longrightarrow> p < 2 * pi \<Longrightarrow> wrapped (ph[j := p])"
  unfolding wrapped_def by (metis insert_iff set_update_subset_insert subsetD)

lemma wrapped_nth: "wrapped ph \<Longrightarrow> j < length ph \<Longrightarrow> 0 \<le> ph ! j \<and> ph ! j < 2 * pi"
  by (simp add: wrapped_def)

lemma encodeSamples_wrapped:
  assumes "symbol < length ph" "0 \<le> inc" "inc < 2 * pi" "wrapped ph"
  shows "wrapped (snd (encodeSamples period symbolIdx symbol inc sampleIdx out0 ph))"
  using assms
proof (induction "nat (period - int sampleIdx)" arbitrary: sampleIdx out0 ph)
  case 0
  then show ?case by (simp add: encodeSamples_stop)
next
  case (Suc n)
  then have lt: "int sampleIdx < period" and n: "n = nat (period - int (Suc sampleIdx))"
    by auto
  let ?p = "ph ! symbol + inc"
  have r: "0 \<le> ph ! symbol" "ph ! symbol < 2 * pi"
    using wrapped_nth [OF Suc.prems(4) Suc.prems(1)] by simp_all
  let ?ph' = "(if (ph[symbol := ?p]) ! symbol \<ge> 2 * pi
              then (ph[symbol := ?p])[symbol := (ph[symbol := ?p]) ! symbol - 2 * pi]
              else ph[symbol := ?p])"
  have w: "wrapped ?ph'"
  proof (cases "2 * pi \<le> ?p")
    case True
    then have "?ph' = ph[symbol := ?p - 2 * pi]" using Suc.prems(1) by simp
    moreover have "0 \<le> ?p - 2 * pi" "?p - 2 * pi < 2 * pi"
      using True r Suc.prems(2,3) by simp_all
    ultimately show ?thesis using wrapped_update [OF Suc.prems(4)] by simp
  next
    case False
    then have "?ph' = ph[symbol := ?p]" using Suc.prems(1) by simp
    moreover have "0 \<le> ?p" "?p < 2 * pi"
      using False r Suc.prems(2) by simp_all
    ultimately show ?thesis using wrapped_update [OF Suc.prems(4)] by simp
  qed
  have l: "symbol < length ?ph'" using Suc.prems(1) by simp
  show ?case
  proof (cases "int symbolIdx * period + int sampleIdx < int (length out0)")
    case True
    with Suc.hyps(1) [OF n l Suc.prems(2,3) w] lt show ?thesis
      by (simp add: encodeSamples_step)
  next
    case False
    with Suc.hyps(1) [OF n Suc.prems] lt show ?thesis
      by (simp add: encodeSamples_step)
  qed
qed

lemma encodeSamples_others:
  assumes "j \<noteq> symbol"
  shows "snd (encodeSamples period symbolIdx symbol inc sampleIdx out0 ph) ! j = ph ! j"
proof (induction "nat (period - int sampleIdx)" arbitrary: sampleIdx out0 ph)
  case 0
  then show ?case by (simp add: encodeSamples_stop)
next
  case (Suc n)
  then have lt: "int sampleIdx < period" and n: "n = nat (period - int (Suc sampleIdx))"
    by auto
  show ?case
    using lt assms by (simp add: encodeSamples_step Suc.hyps(1) [OF n])
qed

lemma symbolsFrom_stop:
  "\<not> int symbolIdx < symbolCount \<Longrightarrow> symbolsFrom data bps symbolCount symbolIdx bitIndex = []"
  by (subst symbolsFrom.simps) simp

lemma symbolsFrom_step:
  "int symbolIdx < symbolCount \<Longrightarrow>
   encodeBits data bps (length data * 8) 0 bitIndex 0 = (symbol, bitIndex') \<Longrightarrow>
   symbolsFrom data bps symbolCount symbolIdx bitIndex =
     symbol # symbolsFrom data bps symbolCount (Suc symbolIdx) bitIndex'"
  by (subst symbolsFrom.simps) simp

lemma encodeSymbols_Inr_step:
  assumes "int symbolIdx < symbolCount"
    and "encodeSymbols m data symbolCount symbolIdx bitIndex out0 ph = Inr (out2, ph2)"
  obtains symbol bitIndex' out1 ph1 where
    "encodeBits data (Order (config m)) (length data * 8) 0 bitIndex 0 = (symbol, bitIndex')"
    "0 \<le> symbol" "symbol < int (length (frequencies m))"
    "0 < symbolPeriod m \<longrightarrow> nat symbol < length ph"
    "encodeSamples (symbolPeriod m) symbolIdx (nat symbol)
       (2 * pi * (frequencies m ! nat symbol) / real_of_int (SampleRate (config m)))
       0 out0 ph = (out1, ph1)"
    "encodeSymbols m data symbolCount (Suc symbolIdx) bitIndex' out1 ph1 = Inr (out2, ph2)"
proof -
  obtain symbol bitIndex' where eb:
    "encodeBits data (Order (config m)) (length data * 8) 0 bitIndex 0 = (symbol, bitIndex')"
    by (cases "encodeBits data (Order (config m)) (length data * 8) 0 bitIndex 0")
  obtain out1 ph1 where es:
    "encodeSamples (symbolPeriod m) symbolIdx (nat symbol)
       (2 * pi * (frequencies m ! nat symbol) / real_of_int (SampleRate (config m)))
       0 out0 ph = (out1, ph1)"
    by (cases "encodeSamples (symbolPeriod m) symbolIdx (nat symbol)
       (2 * pi * (frequencies m ! nat symbol) / real_of_int (SampleRate (config m)))
       0 out0 ph")
  from assms eb es have
    "0 \<le> symbol \<and> symbol < int (length (frequencies m)) \<and>
     (0 < symbolPeriod m \<longrightarrow> nat symbol < length ph) \<and>
     encodeSymbols m data symbolCount (Suc symbolIdx) bitIndex' out1 ph1 = Inr (out2, ph2)"
    by (subst (asm) encodeSymbols.simps) (auto simp: Let_def split: if_splits)
  with eb es that show ?thesis by blast
qed

lemma encodeSamples_nonpositive:
  "period \<le> 0 \<Longrightarrow> encodeSamples period symbolIdx symbol inc sampleIdx out0 ph = (out0, ph)"
  by (simp add: encodeSamples_stop)

lemma encodeSymbols_wrapped:
  assumes "encodeSymbols m data symbolCount symbolIdx bitIndex out0 ph = Inr (out2, ph2)"
    and "\<forall>f \<in> set (frequencies m). 0 \<le> f \<and> f < real_of_int (SampleRate (config m))"
    and "wrapped ph"
  shows "wrapped ph2 \<and> length ph2 = length ph \<and>
         (\<forall>j. int j \<notin> set (symbolsFrom data (Order (config m)) symbolCount symbolIdx bitIndex)
              \<longrightarrow> ph2 ! j = ph ! j)"
  using assms
proof (induction "nat (symbolCount - int symbolIdx)" arbitrary: symbolIdx bitIndex out0 ph)
  case 0
  then show ?case by (simp add: encodeSymbols_stop symbolsFrom_stop)
next
  case (Suc n)
  then have lt: "int symbolIdx < symbolCount" and n: "n = nat (symbolCount - int (Suc symbolIdx))"
    by auto
  from encodeSymbols_Inr_step [OF lt Suc.prems(1)]
  obtain symbol bitIndex' out1 ph1 where
    eb: "encodeBits data (Order (config m)) (length data * 8) 0 bitIndex 0 = (symbol, bitIndex')"
    and s: "0 \<le> symbol" "symbol < int (length (frequencies m))"
    and sp: "0 < symbolPeriod m \<longrightarrow> nat symbol < length ph"
    and es: "encodeSamples (symbolPeriod m) symbolIdx (nat symbol)
       (2 * pi * (frequencies m ! nat symbol) / real_of_int (SampleRate (config m)))
       0 out0 ph = (out1, ph1)"
    and r: "encodeSymbols m data symbolCount (Suc symbolIdx) bitIndex' out1 ph1 = Inr (out2, ph2)"
    by blast
  let ?f = "frequencies m ! nat symbol"
  let ?inc = "2 * pi * ?f / real_of_int (SampleRate (config m))"
  have f: "0 \<le> ?f" "?f < real_of_int (SampleRate (config m))"
    using s Suc.prems(2) by (simp_all add: nat_less_iff)
  then have sr: "0 < real_of_int (SampleRate (config m))" by linarith
  have inc: "0 \<le> ?inc" "?inc < 2 * pi"
    using f sr by (simp_all add: divide_less_eq)
  have ph1: "ph1 = snd (encodeSamples (symbolPeriod m) symbolIdx (nat symbol) ?inc 0 out0 ph)"
    using es by simp
  have w1: "wrapped ph1"
  proof (cases "0 < symbolPeriod m")
    case True
    with sp have "nat symbol < length ph" by simp
    from encodeSamples_wrapped [OF this inc Suc.prems(3)] ph1 show ?thesis by simp
  next
    case False
    then show ?thesis using es Suc.prems(3) by (simp add: encodeSamples_nonpositive)
  qed
  have l1: "length ph1 = length ph"
    using length_encodeSamples [of "symbolPeriod m" symbolIdx "nat symbol" ?inc 0 out0 ph] es
    by simp
  have o1: "\<And>j. j \<noteq> nat symbol \<Longrightarrow> ph1 ! j = ph ! j"
    using encodeSamples_others ph1 by simp
  from Suc.hyps(1) [OF n r Suc.prems(2) w1]
  have ih: "wrapped ph2" "length ph2 = length ph1"
    "\<And>j. int j \<notin> set (symbolsFrom data (Order (config m)) symbolCount (Suc symbolIdx) bitIndex')
        \<Longrightarrow> ph2 ! j = ph1 ! j"
    by simp_all
  have sf: "symbolsFrom data (Order (config m)) symbolCount symbolIdx bitIndex =
              symbol # symbolsFrom data (Order (config m)) symbolCount (Suc symbolIdx) bitIndex'"
    using symbolsFrom_step [OF lt eb] .
  have "\<forall>j. int j \<notin> set (symbolsFrom data (Order (config m)) symbolCount symbolIdx bitIndex)
              \<longrightarrow> ph2 ! j = ph ! j"
  proof (intro allI impI)
    fix j assume j: "int j \<notin> set (symbolsFrom data (Order (config m)) symbolCount symbolIdx bitIndex)"
    then have "int j \<noteq> symbol" and
      "int j \<notin> set (symbolsFrom data (Order (config m)) symbolCount (Suc symbolIdx) bitIndex')"
      unfolding sf by simp_all
    then have "ph2 ! j = ph1 ! j" and "j \<noteq> nat symbol" using ih(3) s by auto
    then show "ph2 ! j = ph ! j" using o1 by simp
  qed
  with ih l1 show ?case by simp
qed

lemma Encode_wrapped:
  assumes "Encode m data = Inr (signal, m')"
    and "\<forall>f \<in> set (frequencies m). 0 \<le> f \<and> f < real_of_int (SampleRate (config m))"
    and "wrapped (phase m)"
  shows "wrapped (phase m') \<and> length (phase m') = length (phase m) \<and>
         (\<forall>j. int j \<notin> set (sentSymbols m data) \<longrightarrow> phase m' ! j = phase m ! j)"
proof -
  let ?sc = "quo (int (length data * 8) + Order (config m) - 1) (Order (config m))"
  from assms(1) obtain ph where
    es: "encodeSymbols m data ?sc 0 0 (replicate (nat (?sc * symbolPeriod m)) 0) (phase m) =
           Inr (signal, ph)" and m': "m' = m\<lparr>phase := ph\<rparr>"
    by (auto simp: Encode_def Let_def split: if_splits sum.splits prod.splits)
  from encodeSymbols_wrapped [OF es assms(2,3)] m' show ?thesis
    by (simp add: sentSymbols_def)
qed

text \<open>
  C5. A modem that \<open>New\<close> returns has every phase accumulator at 0. If every frequency of
  its table is at least 0 and below the sample rate, then after any run of \<open>Encode\<close> calls
  there are as many accumulators as before and each lies in \<open>[0, 2\<pi>)\<close>; one more
  \<open>Encode\<close> keeps them there and leaves the accumulator of every symbol that the data does
  not contain as it was.
\<close>

theorem phase_accumulators_wrapped:
  assumes "New rt cfg = Inr m0"
    and "\<forall>f \<in> set (frequencies m0). 0 \<le> f \<and> f < real_of_int (SampleRate cfg)"
    and "encodeAll m0 datas = Inr m"
  shows "(\<forall>p \<in> set (phase m0). p = 0) \<and>
         length (phase m) = length (frequencies m0) \<and>
         (\<forall>p \<in> set (phase m). 0 \<le> p \<and> p < 2 * pi) \<and>
         (\<forall>data signal m'. Encode m data = Inr (signal, m') \<longrightarrow>
            (\<forall>p \<in> set (phase m'). 0 \<le> p \<and> p < 2 * pi) \<and>
            (\<forall>j. int j \<notin> set (sentSymbols m data) \<longrightarrow> phase m' ! j = phase m ! j))"
proof -
  from assms(1) have fresh: "\<forall>p \<in> set (phase m0). p = 0"
    and len0: "length (phase m0) = length (frequencies m0)" and c0: "config m0 = cfg"
    by (auto simp: New_def makeFloat64s_def Let_def length_fillFrequencies
        split: sum.splits prod.splits if_splits)
  then have w0: "wrapped (phase m0)" using pi_gt_zero by (auto simp: wrapped_def)
  have run: "\<And>m0. encodeAll m0 datas = Inr m \<Longrightarrow> wrapped (phase m0) \<Longrightarrow>
      \<forall>f \<in> set (frequencies m0). 0 \<le> f \<and> f < real_of_int (SampleRate (config m0)) \<Longrightarrow>
      wrapped (phase m) \<and> length (phase m) = length (phase m0) \<and>
      frequencies m = frequencies m0 \<and> config m = config m0"
  proof (induction datas)
    case Nil
    then show ?case by simp
  next
    case (Cons d ds)
    from Cons.prems(1) obtain signal m1 where
      e: "Encode m0 d = Inr (signal, m1)" and r: "encodeAll m1 ds = Inr m"
      by (auto split: sum.splits)
    from Encode_wrapped [OF e Cons.prems(3,2)]
    have w1: "wrapped (phase m1)" and l1: "length (phase m1) = length (phase m0)" by simp_all
    from Encode_phase_only [OF e] have same: "frequencies m1 = frequencies m0" "config m1 = config m0"
      by (metis Modem.select_convs(3) Modem.surjective Modem.update_convs(4),
          metis Modem.select_convs(1) Modem.surjective Modem.update_convs(4))
    from Cons.IH [OF r w1] Cons.prems(3) same l1 show ?case by simp
  qed
  from run [OF assms(3) w0] assms(2) c0
  have w: "wrapped (phase m)" and l: "length (phase m) = length (phase m0)"
    and fr: "frequencies m = frequencies m0" and cf: "config m = cfg"
    by simp_all
  have "\<forall>data signal m'. Encode m data = Inr (signal, m') \<longrightarrow>
            (\<forall>p \<in> set (phase m'). 0 \<le> p \<and> p < 2 * pi) \<and>
            (\<forall>j. int j \<notin> set (sentSymbols m data) \<longrightarrow> phase m' ! j = phase m ! j)"
  proof (intro allI impI)
    fix data signal m' assume e: "Encode m data = Inr (signal, m')"
    have "\<forall>f \<in> set (frequencies m). 0 \<le> f \<and> f < real_of_int (SampleRate (config m))"
      using assms(2) fr cf by simp
    from Encode_wrapped [OF e this w]
    show "(\<forall>p \<in> set (phase m'). 0 \<le> p \<and> p < 2 * pi) \<and>
            (\<forall>j. int j \<notin> set (sentSymbols m data) \<longrightarrow> phase m' ! j = phase m ! j)"
      by (simp add: wrapped_def)
  qed
  with fresh w l len0 show ?thesis by (simp add: wrapped_def)
qed

theorem phase_accumulators_wrapped_witness:
  "New linuxAmd64 DefaultConfig = Inr defaultModem \<and>
   list_all (\<lambda>f. 0 \<le> f \<and> f < real_of_int (SampleRate DefaultConfig)) (frequencies defaultModem) \<and>
   list_all (\<lambda>p. p = 0) (phase defaultModem) \<and>
   (\<exists>m. encodeAll defaultModem [[0x68, 0x69], [0x21]] = Inr m \<and> length (phase m) = 4 \<and>
        list_all (\<lambda>p. 0 \<le> p \<and> p < 2 * pi) (phase m))"
proof -
  obtain m where e: "encodeAll defaultModem [[0x68, 0x69], [0x21]] = Inr m"
    using encodeAll_total [OF encodable_defaultModem] by blast
  have f: "\<forall>f \<in> set (frequencies defaultModem). 0 \<le> f \<and> f < real_of_int (SampleRate DefaultConfig)"
    by (simp add: defaultModem_def DefaultConfig_def)
  from phase_accumulators_wrapped [OF New_DefaultConfig f e]
  have "length (phase m) = 4" "\<forall>p \<in> set (phase m). 0 \<le> p \<and> p < 2 * pi"
    by (simp_all add: defaultModem_def)
  with e f New_DefaultConfig show ?thesis
    by (auto simp: list_all_iff defaultModem_def)
qed

text \<open>
  Without the lower bound the accumulators leave the interval: with frequencies -1 and 0 at
  a sample rate of 4, both below the sample rate, one zero byte sends symbol 0 eight times,
  one sample each, and the accumulator of symbol 0 ends at \<open>-4\<pi>\<close>.
\<close>

lemma encodeBits_zero_byte: "bi < 8 \<Longrightarrow> encodeBits [0] 1 8 0 bi 0 = (0, Suc bi)"
  by (simp add: encodeBits_step encodeBits_stop)

lemma sample_negative:
  assumes "0 < length ph" "ph ! 0 \<le> 0" "k < length out0"
  shows "encodeSamples 1 k 0 (- (pi / 2)) 0 out0 ph =
           (out0[k := 0.5 * sin (ph ! 0)], ph[0 := ph ! 0 - pi / 2])"
proof -
  have "\<not> 2 * pi \<le> ph ! 0 - pi / 2"
    using assms(2) pi_gt_zero by linarith
  then show ?thesis
    using assms by (simp add: encodeSamples_step encodeSamples_stop)
qed

theorem phase_negative_counterexample:
  "New linuxAmd64 negConfig = Inr negModem \<and> list_all (\<lambda>f. f < 4) (frequencies negModem) \<and>
   map_sum id (phase \<circ> snd) (Encode negModem [0]) = Inr [- (4 * pi), 0]"
proof -
  have "map_sum id (phase \<circ> snd) (Encode negModem [0]) = Inr [- (4 * pi), 0]"
    apply (simp add: Encode_def negModem_def negConfig_def quo_def Let_def)
    apply (simp add: encodeSymbols.simps encodeBits_zero_byte sample_negative)
    done
  then show ?thesis
    by (simp add: New_negConfig) (simp add: negModem_def)
qed

section \<open>Decode: detection and reassembly\<close>

lemma correlateWithFrequency_nonneg: "0 \<le> correlateWithFrequency m w f"
  by (simp add: correlateWithFrequency_def Let_def)

lemma detectLoop_spec:
  assumes "detectLoop m w fs k mx d = (mx', d')"
  shows "mx \<le> mx' \<and> (\<forall>i < length fs. correlateWithFrequency m w (fs ! i) \<le> mx') \<and>
         ((mx' = mx \<and> d' = d) \<or>
          (\<exists>i < length fs. d' = int (k + i) \<and> correlateWithFrequency m w (fs ! i) = mx' \<and>
              mx < mx' \<and> (\<forall>j < i. correlateWithFrequency m w (fs ! j) < mx')))"
  using assms
proof (induction fs arbitrary: k mx d)
  case Nil
  then show ?case by simp
next
  case (Cons f rest)
  let ?c = "correlateWithFrequency m w"
  show ?case
  proof (cases "?c f > mx")
    case True
    with Cons.prems have r: "detectLoop m w rest (k + 1) (?c f) (int k) = (mx', d')"
      by (simp add: Let_def)
    from Cons.IH [OF r] have le: "?c f \<le> mx'"
      and all: "\<forall>i < length rest. ?c (rest ! i) \<le> mx'"
      and alt: "(mx' = ?c f \<and> d' = int k) \<or>
          (\<exists>i < length rest. d' = int (k + 1 + i) \<and> ?c (rest ! i) = mx' \<and>
              ?c f < mx' \<and> (\<forall>j < i. ?c (rest ! j) < mx'))"
      by auto
    have bound: "\<forall>i < length (f # rest). ?c ((f # rest) ! i) \<le> mx'"
      using le all by (auto simp: nth_Cons split: nat.splits)
    from alt have "\<exists>i < length (f # rest). d' = int (k + i) \<and> ?c ((f # rest) ! i) = mx' \<and>
              mx < mx' \<and> (\<forall>j < i. ?c ((f # rest) ! j) < mx')"
    proof
      assume "mx' = ?c f \<and> d' = int k"
      with True show ?thesis by (intro exI [of _ 0]) simp
    next
      assume "\<exists>i < length rest. d' = int (k + 1 + i) \<and> ?c (rest ! i) = mx' \<and>
              ?c f < mx' \<and> (\<forall>j < i. ?c (rest ! j) < mx')"
      then obtain i where i: "i < length rest" "d' = int (k + 1 + i)" "?c (rest ! i) = mx'"
        "?c f < mx'" "\<forall>j < i. ?c (rest ! j) < mx'" by blast
      with True show ?thesis
        by (intro exI [of _ "Suc i"]) (auto simp: nth_Cons split: nat.splits)
    qed
    with bound True le show ?thesis by auto
  next
    case False
    with Cons.prems have r: "detectLoop m w rest (k + 1) mx d = (mx', d')"
      by (simp add: Let_def)
    from Cons.IH [OF r] have le: "mx \<le> mx'"
      and all: "\<forall>i < length rest. ?c (rest ! i) \<le> mx'"
      and alt: "(mx' = mx \<and> d' = d) \<or>
          (\<exists>i < length rest. d' = int (k + 1 + i) \<and> ?c (rest ! i) = mx' \<and>
              mx < mx' \<and> (\<forall>j < i. ?c (rest ! j) < mx'))"
      by auto
    have bound: "\<forall>i < length (f # rest). ?c ((f # rest) ! i) \<le> mx'"
      using le all False by (auto simp: nth_Cons split: nat.splits)
    from alt have "(mx' = mx \<and> d' = d) \<or>
         (\<exists>i < length (f # rest). d' = int (k + i) \<and> ?c ((f # rest) ! i) = mx' \<and>
              mx < mx' \<and> (\<forall>j < i. ?c ((f # rest) ! j) < mx'))"
    proof
      assume "mx' = mx \<and> d' = d"
      then show ?thesis by simp
    next
      assume "\<exists>i < length rest. d' = int (k + 1 + i) \<and> ?c (rest ! i) = mx' \<and>
              mx < mx' \<and> (\<forall>j < i. ?c (rest ! j) < mx')"
      then obtain i where i: "i < length rest" "d' = int (k + 1 + i)" "?c (rest ! i) = mx'"
        "mx < mx'" "\<forall>j < i. ?c (rest ! j) < mx'" by blast
      with False have "\<exists>i < length (f # rest). d' = int (k + i) \<and> ?c ((f # rest) ! i) = mx' \<and>
              mx < mx' \<and> (\<forall>j < i. ?c ((f # rest) ! j) < mx')"
        by (intro exI [of _ "Suc i"]) (auto simp: nth_Cons split: nat.splits)
      then show ?thesis by simp
    qed
    with bound le show ?thesis by auto
  qed
qed

lemma detectSymbol_spec:
  assumes "frequencies m \<noteq> []"
  shows "\<exists>i < length (frequencies m). detectSymbol m w = int i \<and>
           (\<forall>j < length (frequencies m).
              correlateWithFrequency m w (frequencies m ! j)
                \<le> correlateWithFrequency m w (frequencies m ! i)) \<and>
           (\<forall>j < i. correlateWithFrequency m w (frequencies m ! j)
                < correlateWithFrequency m w (frequencies m ! i))"
proof -
  let ?c = "correlateWithFrequency m w"
  obtain mx' d' where dl: "detectLoop m w (frequencies m) 0 (- 1) 0 = (mx', d')"
    by (cases "detectLoop m w (frequencies m) 0 (- 1) 0")
  from detectLoop_spec [OF dl]
  have all: "\<forall>i < length (frequencies m). ?c (frequencies m ! i) \<le> mx'"
    and alt: "(mx' = - 1 \<and> d' = 0) \<or>
          (\<exists>i < length (frequencies m). d' = int (0 + i) \<and> ?c (frequencies m ! i) = mx' \<and>
              - 1 < mx' \<and> (\<forall>j < i. ?c (frequencies m ! j) < mx'))"
    by auto
  from assms have "0 < length (frequencies m)" by simp
  with all have "?c (frequencies m ! 0) \<le> mx'" by blast
  with correlateWithFrequency_nonneg [of m w "frequencies m ! 0"] have "mx' \<noteq> - 1" by linarith
  with alt obtain i where i: "i < length (frequencies m)" "d' = int i"
    "?c (frequencies m ! i) = mx'" "\<forall>j < i. ?c (frequencies m ! j) < mx'"
    by auto
  with all dl show ?thesis
    by (intro exI [of _ i]) (simp add: detectSymbol_def)
qed


lemma length_decodeSymbols [simp]:
  "length (decodeSymbols m signal symbolCount symbolIdx symbols) = length symbols"
proof (induction "nat (symbolCount - int symbolIdx)" arbitrary: symbolIdx symbols)
  case 0
  then show ?case by (simp add: decodeSymbols_stop)
next
  case (Suc n)
  then have lt: "int symbolIdx < symbolCount" and n: "n = nat (symbolCount - int (Suc symbolIdx))"
    by auto
  from Suc.hyps(1) [OF n] lt show ?case by (simp add: decodeSymbols_step)
qed

lemma nth_decodeSymbols:
  assumes "symbolCount \<le> int (length symbols)" "k < length symbols"
  shows "decodeSymbols m signal symbolCount symbolIdx symbols ! k =
           (if symbolIdx \<le> k \<and> int k < symbolCount
            then detectSymbol m (windowAt m signal k) else symbols ! k)"
  using assms
proof (induction "nat (symbolCount - int symbolIdx)" arbitrary: symbolIdx symbols)
  case 0
  then show ?case by (auto simp: decodeSymbols_stop)
next
  case (Suc n)
  then have lt: "int symbolIdx < symbolCount" and n: "n = nat (symbolCount - int (Suc symbolIdx))"
    by auto
  have "symbolIdx < length symbols" using lt Suc.prems by linarith
  with Suc.hyps(1) [OF n, of "symbols[symbolIdx := detectSymbol m (windowAt m signal symbolIdx)]"]
    lt Suc.prems
  show ?case
    by (auto simp: decodeSymbols_step nth_list_update)
qed

lemma quo_length: "0 < p \<Longrightarrow> quo (int n) p = int (n div nat p)"
  by (simp add: quo_nonneg zdiv_int)

lemma detectedSymbols_nth:
  assumes "0 < symbolPeriod m" "k < length signal div nat (symbolPeriod m)"
  shows "length (detectedSymbols m signal) = length signal div nat (symbolPeriod m)"
    and "detectedSymbols m signal ! k = detectSymbol m (windowAt m signal k)"
  using assms
  by (simp_all add: detectedSymbols_def quo_length nth_decodeSymbols)

text \<open>
  C4. For a modem with a table that is not empty, the symbol that \<open>Decode\<close> detects in
  window \<open>k\<close> is an index \<open>i\<close> of the frequency table; the correlation of the window with
  frequency \<open>i\<close> is at least that with every frequency of the table and strictly greater
  than that with every frequency of a lower index, so of several frequencies that share the
  greatest correlation the first wins; and \<open>i\<close> is the only index with these two properties.
\<close>

theorem Decode_selects_first_maximum:
  assumes "0 < symbolPeriod m" and "frequencies m \<noteq> []"
    and "k < length signal div nat (symbolPeriod m)"
  shows "\<exists>i < length (frequencies m).
           detectedSymbols m signal ! k = int i \<and>
           (\<forall>j < length (frequencies m).
              correlateWithFrequency m (windowAt m signal k) (frequencies m ! j)
                \<le> correlateWithFrequency m (windowAt m signal k) (frequencies m ! i)) \<and>
           (\<forall>j < i. correlateWithFrequency m (windowAt m signal k) (frequencies m ! j)
                < correlateWithFrequency m (windowAt m signal k) (frequencies m ! i)) \<and>
           (\<forall>i' < length (frequencies m).
              (\<forall>j < length (frequencies m).
                 correlateWithFrequency m (windowAt m signal k) (frequencies m ! j)
                   \<le> correlateWithFrequency m (windowAt m signal k) (frequencies m ! i')) \<and>
              (\<forall>j < i'. correlateWithFrequency m (windowAt m signal k) (frequencies m ! j)
                   < correlateWithFrequency m (windowAt m signal k) (frequencies m ! i'))
              \<longrightarrow> i' = i)"
proof -
  let ?c = "\<lambda>j. correlateWithFrequency m (windowAt m signal k) (frequencies m ! j)"
  from detectSymbol_spec [OF assms(2), of "windowAt m signal k"]
  obtain i where i: "i < length (frequencies m)"
    "detectSymbol m (windowAt m signal k) = int i"
    "\<forall>j < length (frequencies m). ?c j \<le> ?c i" "\<forall>j < i. ?c j < ?c i"
    by blast
  have uniq: "\<forall>i' < length (frequencies m).
      (\<forall>j < length (frequencies m). ?c j \<le> ?c i') \<and> (\<forall>j < i'. ?c j < ?c i') \<longrightarrow> i' = i"
  proof (intro allI impI)
    fix i' assume i': "i' < length (frequencies m)"
      and p: "(\<forall>j < length (frequencies m). ?c j \<le> ?c i') \<and> (\<forall>j < i'. ?c j < ?c i')"
    show "i' = i"
    proof (rule ccontr)
      assume "i' \<noteq> i"
      then consider "i' < i" | "i < i'" by linarith
      then show False
      proof cases
        case 1
        with i(4) have "?c i' < ?c i" by simp
        moreover from p i(1) have "?c i \<le> ?c i'" by simp
        ultimately show False by simp
      next
        case 2
        with p have "?c i < ?c i'" by simp
        moreover from i(3) i' have "?c i' \<le> ?c i" by simp
        ultimately show False by simp
      qed
    qed
  qed
  have dn: "detectedSymbols m signal ! k = int i"
    using detectedSymbols_nth(2) [OF assms(1,3)] i(2) by simp
  show ?thesis
    by (intro exI [of _ i] conjI) (rule i(1) dn i(3) i(4) uniq)+
qed

lemma correlateLoop_silence: "correlateLoop inc (replicate n 0) c ph = c"
  by (induction n arbitrary: c ph) (simp_all add: Let_def)

theorem Decode_selects_first_maximum_witness:
  "(0::int) < symbolPeriod defaultModem \<and> frequencies defaultModem \<noteq> [] \<and>
   (1::nat) < length (replicate 1000 (0::real)) div nat (symbolPeriod defaultModem) \<and>
   correlateWithFrequency defaultModem (windowAt defaultModem (replicate 1000 0) 1) 1000 =
     correlateWithFrequency defaultModem (windowAt defaultModem (replicate 1000 0) 1) 1200 \<and>
   detectedSymbols defaultModem (replicate 1000 0) ! 1 = 0"
proof -
  have h: "0 < symbolPeriod defaultModem" "frequencies defaultModem \<noteq> []"
    "1 < length (replicate 1000 (0::real)) div nat (symbolPeriod defaultModem)"
    by (simp_all add: defaultModem_def)
  have w: "windowAt defaultModem (replicate 1000 0) 1 = replicate 480 0"
    by (simp add: windowAt_def defaultModem_def Let_def)
  have c: "\<And>f. correlateWithFrequency defaultModem (replicate 480 0) f = 0"
    by (simp add: correlateWithFrequency_def correlateLoop_silence)
  from Decode_selects_first_maximum [OF h]
  obtain i where i: "detectedSymbols defaultModem (replicate 1000 0) ! 1 = int i"
    "\<forall>j < i. correlateWithFrequency defaultModem (windowAt defaultModem (replicate 1000 0) 1)
               (frequencies defaultModem ! j)
            < correlateWithFrequency defaultModem (windowAt defaultModem (replicate 1000 0) 1)
               (frequencies defaultModem ! i)"
    by blast
  from i(2) have "\<forall>j. \<not> j < i" unfolding w c by simp
  then have "i = 0" by (cases i) auto
  moreover have "correlateWithFrequency defaultModem (windowAt defaultModem (replicate 1000 0) 1) 1000 =
     correlateWithFrequency defaultModem (windowAt defaultModem (replicate 1000 0) 1) 1200"
    unfolding w c by simp
  ultimately show ?thesis using i(1) h by simp
qed

lemma small_no_high_bit: "0 \<le> (d::int) \<Longrightarrow> d < 2 ^ n \<Longrightarrow> n \<le> k \<Longrightarrow> \<not> bit d k"
proof -
  assume a: "0 \<le> d" "d < 2 ^ n" "n \<le> k"
  have "(2::int) ^ n \<le> 2 ^ k" using a(3) by (simp add: power_increasing)
  with a(2) have "d < 2 ^ k" by linarith
  with a(1) have "d div 2 ^ k = 0" by (rule div_pos_pos_trivial)
  then show ?thesis by (simp add: bit_iff_odd)
qed

lemma symbol_test:
  assumes "0 \<le> d" "d < 2 ^ 63" "0 \<le> k"
  shows "(d AND shl1 k \<noteq> 0) = bit d (nat k)"
proof -
  consider "k < 63" | "k = 63" | "64 \<le> k" using assms(3) by linarith
  then show ?thesis
  proof cases
    case 1
    with assms(3) show ?thesis
      by (simp add: shl1_pow and_exp_eq_0_iff_not_bit)
  next
    case 2
    have "d AND - (2 ^ 63) = 0"
    proof (rule bit_eqI)
      fix n
      have "\<not> (bit d n \<and> bit (- (2 ^ 63) :: int) n)"
        unfolding bit_minus_exp_iff
        using small_no_high_bit [OF assms(1,2), of n] by auto
      then show "bit (d AND - (2 ^ 63)) n = bit (0::int) n"
        unfolding bit_and_iff by simp
    qed
    moreover have "\<not> bit d 63" using small_no_high_bit [OF assms(1,2), of 63] by simp
    ultimately show ?thesis using 2 by (simp add: shl1_def)
  next
    case 3
    then have "\<not> bit d (nat k)" using small_no_high_bit [OF assms(1,2), of "nat k"] by simp
    with 3 show ?thesis by (simp add: shl1_ge64)
  qed
qed

lemma byteBit_set:
  assumes "bi < 8 * length out0"
  shows "byteBit (out0[bi div 8 := (out0 ! (bi div 8)) OR (push_bit (7 - bi mod 8) 1)]) b
           \<longleftrightarrow> byteBit out0 b \<or> b = bi"
proof (cases "b div 8 = bi div 8")
  case True
  have lt: "bi div 8 < length out0" using assms by simp
  have "7 - b mod 8 = 7 - bi mod 8 \<longleftrightarrow> b = bi"
  proof
    assume "7 - b mod 8 = 7 - bi mod 8"
    then have "b mod 8 = bi mod 8" by presburger
    with True show "b = bi" by (metis div_mult_mod_eq)
  qed simp
  then show ?thesis
    using True lt by (auto simp: byteBit_def bit_or_iff bit_exp_iff)
next
  case False
  then have "b \<noteq> bi" by auto
  with False show ?thesis by (simp add: byteBit_def)
qed

lemma decodeBits_stop:
  "\<not> (int bitNo < bps \<and> int bi < tb) \<Longrightarrow> decodeBits bps tb d bitNo bi out0 = (out0, bi)"
  by (subst decodeBits.simps) (auto simp: Let_def)

lemma decodeBits_step:
  "int bitNo < bps \<Longrightarrow> int bi < tb \<Longrightarrow>
   decodeBits bps tb d bitNo bi out0 =
     decodeBits bps tb d (Suc bitNo) (Suc bi)
       (if d AND shl1 (bps - 1 - int bitNo) \<noteq> 0
        then out0[bi div 8 := (out0 ! (bi div 8)) OR (push_bit (7 - bi mod 8) 1)]
        else out0)"
  by (subst decodeBits.simps) (simp add: Let_def)

lemma decodeBits_spec:
  assumes "0 \<le> d" "d < 2 ^ 63" "0 \<le> bps" "bitNo \<le> nat bps"
    and "int (bi + (nat bps - bitNo)) \<le> tb" and "tb \<le> 8 * int (length out0)"
  shows "snd (decodeBits bps tb d bitNo bi out0) = bi + (nat bps - bitNo) \<and>
         length (fst (decodeBits bps tb d bitNo bi out0)) = length out0 \<and>
         (\<forall>b. byteBit (fst (decodeBits bps tb d bitNo bi out0)) b \<longleftrightarrow>
               byteBit out0 b \<or>
               (bi \<le> b \<and> b < bi + (nat bps - bitNo) \<and>
                bit d (nat bps - 1 - (bitNo + (b - bi)))))"
  using assms(4-6)
proof (induction "nat bps - bitNo" arbitrary: bitNo bi out0)
  case 0
  then have "\<not> (int bitNo < bps \<and> int bi < tb)" using assms(3) by linarith
  with 0 show ?case by (auto simp: decodeBits_stop)
next
  case (Suc n)
  then have lt: "int bitNo < bps" "int bi < tb" and n: "n = nat bps - Suc bitNo"
    by linarith+
  let ?test = "d AND shl1 (bps - 1 - int bitNo) \<noteq> 0"
  let ?out1 = "(if ?test
        then out0[bi div 8 := (out0 ! (bi div 8)) OR (push_bit (7 - bi mod 8) 1)]
        else out0)"
  have test: "?test = bit d (nat bps - 1 - bitNo)"
  proof -
    have "0 \<le> bps - 1 - int bitNo" using lt by simp
    moreover have "nat (bps - 1 - int bitNo) = nat bps - 1 - bitNo" using lt by linarith
    ultimately show ?thesis using symbol_test [OF assms(1,2)] by simp
  qed
  have bi8: "bi < 8 * length out0" using lt Suc.prems by linarith
  have o1: "\<And>b. byteBit ?out1 b \<longleftrightarrow> byteBit out0 b \<or> (b = bi \<and> bit d (nat bps - 1 - bitNo))"
    using byteBit_set [OF bi8] test by auto
  have l1: "length ?out1 = length out0" by simp
  have p1: "Suc bitNo \<le> nat bps" "int (Suc bi + (nat bps - Suc bitNo)) \<le> tb"
    "tb \<le> 8 * int (length ?out1)"
    using lt Suc.prems l1 by (linarith, linarith, simp)
  note ih = Suc.hyps(1) [OF n p1]
  have step: "decodeBits bps tb d bitNo bi out0 = decodeBits bps tb d (Suc bitNo) (Suc bi) ?out1"
    using decodeBits_step [OF lt] .
  have "\<forall>b. byteBit (fst (decodeBits bps tb d bitNo bi out0)) b \<longleftrightarrow>
               byteBit out0 b \<or>
               (bi \<le> b \<and> b < bi + (nat bps - bitNo) \<and>
                bit d (nat bps - 1 - (bitNo + (b - bi))))"
  proof
    fix b
    from ih have "byteBit (fst (decodeBits bps tb d bitNo bi out0)) b \<longleftrightarrow>
        byteBit ?out1 b \<or>
        (Suc bi \<le> b \<and> b < Suc bi + (nat bps - Suc bitNo) \<and>
         bit d (nat bps - 1 - (Suc bitNo + (b - Suc bi))))"
      unfolding step by blast
    also have "\<dots> \<longleftrightarrow> byteBit out0 b \<or>
               (bi \<le> b \<and> b < bi + (nat bps - bitNo) \<and>
                bit d (nat bps - 1 - (bitNo + (b - bi))))"
    proof (cases "b = bi")
      case True
      then show ?thesis using o1 [of b] lt by auto
    next
      case False
      have "Suc bi \<le> b \<Longrightarrow> Suc bitNo + (b - Suc bi) = bitNo + (b - bi)" by simp
      moreover have "b < Suc bi + (nat bps - Suc bitNo) \<longleftrightarrow> b < bi + (nat bps - bitNo)"
        using lt by linarith
      ultimately show ?thesis using False o1 [of b] by auto
    qed
    finally show "byteBit (fst (decodeBits bps tb d bitNo bi out0)) b \<longleftrightarrow>
               byteBit out0 b \<or>
               (bi \<le> b \<and> b < bi + (nat bps - bitNo) \<and>
                bit d (nat bps - 1 - (bitNo + (b - bi))))" .
  qed
  moreover have "snd (decodeBits bps tb d bitNo bi out0) = bi + (nat bps - bitNo)"
    using ih lt unfolding step by simp
  moreover have "length (fst (decodeBits bps tb d bitNo bi out0)) = length out0"
    using ih l1 unfolding step by simp
  ultimately show ?case by blast
qed

lemma decodeBytes_spec:
  assumes "\<forall>s \<in> set syms. 0 \<le> s \<and> s < 2 ^ 63" "0 \<le> bps"
    and "int (bi + length syms * nat bps) \<le> tb" and "tb \<le> 8 * int (length out0)"
  shows "length (decodeBytes bps tb syms bi out0) = length out0 \<and>
         (\<forall>b. byteBit (decodeBytes bps tb syms bi out0) b \<longleftrightarrow>
               byteBit out0 b \<or>
               (bi \<le> b \<and> b < bi + length syms * nat bps \<and>
                bit (syms ! ((b - bi) div nat bps)) (nat bps - 1 - (b - bi) mod nat bps)))"
  using assms(1,3,4)
proof (induction syms arbitrary: bi out0)
  case Nil
  then show ?case by auto
next
  case (Cons s rest)
  let ?B = "nat bps"
  obtain out1 bi1 where db: "decodeBits bps tb s 0 bi out0 = (out1, bi1)"
    by (cases "decodeBits bps tb s 0 bi out0")
  have s: "0 \<le> s" "s < 2 ^ 63" using Cons.prems(1) by simp_all
  have "int (bi + ?B) \<le> int (bi + length (s # rest) * ?B)"
    by (intro of_nat_mono) simp
  then have room': "int (bi + ?B) \<le> tb" using Cons.prems(2) by linarith
  then have room: "int (bi + (?B - 0)) \<le> tb" by (simp only: diff_zero)
  from decodeBits_spec [OF s assms(2) _ room Cons.prems(3)] db
  have bi1: "bi1 = bi + ?B" and l1: "length out1 = length out0"
    and b1: "\<And>b. byteBit out1 b \<longleftrightarrow>
               byteBit out0 b \<or> (bi \<le> b \<and> b < bi + ?B \<and> bit s (?B - 1 - (b - bi)))"
    by simp_all
  have p: "\<forall>s \<in> set rest. 0 \<le> s \<and> s < 2 ^ 63" "int (bi1 + length rest * ?B) \<le> tb"
    "tb \<le> 8 * int (length out1)"
    using Cons.prems bi1 l1 by (simp_all add: add.assoc)
  note ih = Cons.IH [OF p]
  have eq: "decodeBytes bps tb (s # rest) bi out0 = decodeBytes bps tb rest bi1 out1"
    using db by simp
  have "\<forall>b. byteBit (decodeBytes bps tb (s # rest) bi out0) b \<longleftrightarrow>
               byteBit out0 b \<or>
               (bi \<le> b \<and> b < bi + length (s # rest) * ?B \<and>
                bit ((s # rest) ! ((b - bi) div ?B)) (?B - 1 - (b - bi) mod ?B))"
  proof
    fix b
    have "byteBit (decodeBytes bps tb (s # rest) bi out0) b \<longleftrightarrow>
            byteBit out1 b \<or>
            (bi1 \<le> b \<and> b < bi1 + length rest * ?B \<and>
             bit (rest ! ((b - bi1) div ?B)) (?B - 1 - (b - bi1) mod ?B))"
      unfolding eq using ih by blast
    also have "\<dots> \<longleftrightarrow> byteBit out0 b \<or>
               (bi \<le> b \<and> b < bi + length (s # rest) * ?B \<and>
                bit ((s # rest) ! ((b - bi) div ?B)) (?B - 1 - (b - bi) mod ?B))"
    proof (cases "b < bi + ?B")
      case True
      then have "\<not> bi1 \<le> b" using bi1 by simp
      moreover have "bi \<le> b \<Longrightarrow> (b - bi) div ?B = 0 \<and> (b - bi) mod ?B = b - bi"
        using True by simp
      moreover have "b < bi + length (s # rest) * ?B" using True by simp
      ultimately show ?thesis using b1 [of b] True by auto
    next
      case False
      then have ge: "bi1 \<le> b" "bi \<le> b" using bi1 by simp_all
      show ?thesis
      proof (cases "?B = 0")
        case True
        then show ?thesis using b1 [of b] False bi1 by simp
      next
        case B: False
        have d: "(b - bi) div ?B = Suc ((b - bi1) div ?B)"
          and m: "(b - bi) mod ?B = (b - bi1) mod ?B"
        proof -
          have e: "b - bi = (b - bi1) + ?B" using ge bi1 by simp
          show "(b - bi) div ?B = Suc ((b - bi1) div ?B)" unfolding e using B by simp
          show "(b - bi) mod ?B = (b - bi1) mod ?B" unfolding e by simp
        qed
        have "b < bi1 + length rest * ?B \<longleftrightarrow> b < bi + length (s # rest) * ?B"
          using bi1 by (simp add: algebra_simps)
        then show ?thesis using b1 [of b] False ge d m by auto
      qed
    qed
    finally show "byteBit (decodeBytes bps tb (s # rest) bi out0) b \<longleftrightarrow>
               byteBit out0 b \<or>
               (bi \<le> b \<and> b < bi + length (s # rest) * ?B \<and>
                bit ((s # rest) ! ((b - bi) div ?B)) (?B - 1 - (b - bi) mod ?B))" .
  qed
  moreover have "length (decodeBytes bps tb (s # rest) bi out0) = length out0"
    unfolding eq using ih l1 by simp
  ultimately show ?case by blast
qed

lemma byteBit_zeros: "b < 8 * n \<Longrightarrow> \<not> byteBit (replicate n 0) b"
  by (simp add: byteBit_def)

lemma windowAt_aligned:
  assumes "0 < symbolPeriod m" "k < length signal div nat (symbolPeriod m)"
  shows "windowAt m signal k = take (nat (symbolPeriod m)) (drop (k * nat (symbolPeriod m)) signal)"
proof -
  define P where "P = nat (symbolPeriod m)"
  have p: "symbolPeriod m = int P" "0 < P" using assms(1) by (simp_all add: P_def)
  have "Suc k \<le> length signal div P" using assms(2) by (simp add: P_def)
  then have "Suc k * P \<le> length signal div P * P" by (rule mult_le_mono1)
  also have "\<dots> \<le> length signal" by simp
  finally have le: "k * P + P \<le> length signal" by simp
  have e: "int k * int P = int (k * P)" "int (k * P) + int P = int (k * P + P)"
    by simp_all
  have "windowAt m signal k = take P (drop (k * P) signal)"
    unfolding windowAt_def Let_def p(1) e using le by (simp del: of_nat_add of_nat_mult)
  then show ?thesis by (simp add: P_def)
qed


lemma length_detectedSymbols:
  assumes "0 < symbolPeriod m"
  shows "length (detectedSymbols m signal) = length signal div nat (symbolPeriod m)"
  unfolding detectedSymbols_def Let_def quo_length [OF assms] by simp

lemma quo_ceil8: "quo (int N + 7) 8 = int ((N + 7) div 8)"
proof -
  have "quo (int N + 7) 8 = (int N + 7) div 8" by (rule quo_nonneg) simp_all
  also have "\<dots> = int ((N + 7) div 8)" by (simp add: zdiv_int)
  finally show ?thesis .
qed


lemma Decode_eq:
  assumes "0 < symbolPeriod m" "0 \<le> Order (config m)"
  shows "Decode m signal =
           (if length signal div nat (symbolPeriod m) = 0 then Inr []
            else Inr (decodeBytes (Order (config m))
                        (int (length signal div nat (symbolPeriod m)) * Order (config m))
                        (detectedSymbols m signal) 0
                        (replicate ((length signal div nat (symbolPeriod m)
                                      * nat (Order (config m)) + 7) div 8) 0)))"
proof -
  let ?n = "length signal div nat (symbolPeriod m)"
  let ?bps = "Order (config m)"
  define N where "N = ?n * nat ?bps"
  have q: "quo (int (length signal)) (symbolPeriod m) = int ?n"
    using assms(1) by (rule quo_length)
  have tb: "int ?n * ?bps = int N" using assms(2) by (simp add: N_def)
  have bc: "quo (int ?n * ?bps + 7) 8 = int ((N + 7) div 8)"
    unfolding tb by (rule quo_ceil8)
  have nz: "symbolPeriod m \<noteq> 0" using assms(1) by simp
  have ds: "decodeSymbols m signal (int ?n) 0 (replicate ?n 0) = detectedSymbols m signal"
    unfolding detectedSymbols_def Let_def q by simp
  have "Decode m signal =
          (if int ?n = 0 then Inr []
           else Inr (decodeBytes ?bps (int ?n * ?bps) (detectedSymbols m signal) 0
                       (replicate ((N + 7) div 8) 0)))"
    unfolding Decode_def Let_def q bc using nz ds by simp
  then show ?thesis unfolding N_def by simp
qed


lemma ceil8_room: "int N \<le> 8 * int ((N + 7) div 8)"
  by linarith

lemma byteBit_ext:
  assumes "length xs = length ys" and "\<forall>b < 8 * length xs. byteBit xs b = byteBit ys b"
  shows "xs = ys"
proof (rule nth_equalityI [OF assms(1)])
  fix i assume i: "i < length xs"
  show "xs ! i = ys ! i"
  proof (rule bit_word_eqI)
    fix n assume "n < LENGTH(8)"
    then have n: "n < 8" by simp
    define b where "b = 8 * i + (7 - n)"
    have lt: "b < 8 * length xs" using i n unfolding b_def by linarith
    have "b div 8 = i + (7 - n) div 8" unfolding b_def by (rule div_mult_self4) simp
    then have d: "b div 8 = i" by simp
    have "b mod 8 = (7 - n) mod 8" unfolding b_def by (rule mod_mult_self4)
    also have "\<dots> = 7 - n" by (rule mod_less) simp
    finally have m: "7 - b mod 8 = n" using n by simp
    from assms(2) lt have "byteBit xs b = byteBit ys b" by blast
    then show "bit (xs ! i) n = bit (ys ! i) n"
      unfolding byteBit_def d m .
  qed
qed





section \<open>Encode followed by Decode\<close>

lemma byte_test: "((w::byte) AND push_bit n 1 \<noteq> 0) = bit w n"
  by (simp add: and_exp_eq_0_iff_not_bit)

lemma encodeBits_bits:
  assumes "0 \<le> bps" "bps \<le> 63" "bitNo \<le> nat bps" "bi + (nat bps - bitNo) \<le> tb"
  shows "snd (encodeBits data bps tb bitNo bi symbol) = bi + (nat bps - bitNo) \<and>
         (\<forall>j. bit (fst (encodeBits data bps tb bitNo bi symbol)) j \<longleftrightarrow>
               bit symbol j \<or>
               (j < nat bps - bitNo \<and> byteBit data (bi + (nat bps - 1 - bitNo - j))))"
  using assms(3,4)
proof (induction "nat bps - bitNo" arbitrary: bitNo bi symbol)
  case 0
  then have "\<not> (int bitNo < bps \<and> bi < tb)" using assms(1) by linarith
  then show ?case using 0 by (simp add: encodeBits_stop)
next
  case (Suc n)
  then have lt: "int bitNo < bps" "bi < tb" and n: "n = nat bps - Suc bitNo"
    by linarith+
  define B where "B = nat bps"
  have B: "bitNo < B" "bps = int B" using lt assms(1) by (simp_all add: B_def)
  let ?s1 = "(if (data ! (bi div 8)) AND (push_bit (7 - (bi mod 8)) 1) \<noteq> 0
              then symbol OR shl1 (bps - 1 - int bitNo) else symbol)"
  have sh: "shl1 (bps - 1 - int bitNo) = 2 ^ (B - 1 - bitNo)"
  proof -
    have "0 \<le> bps - 1 - int bitNo" "bps - 1 - int bitNo < 63" using lt assms(2) by simp_all
    from shl1_pow [OF this] have "shl1 (bps - 1 - int bitNo) = 2 ^ nat (bps - 1 - int bitNo)" .
    moreover have "nat (bps - 1 - int bitNo) = B - 1 - bitNo" using B by linarith
    ultimately show ?thesis by simp
  qed
  have s1: "\<And>j. bit ?s1 j \<longleftrightarrow> bit symbol j \<or> (byteBit data bi \<and> j = B - 1 - bitNo)"
    unfolding byte_test sh by (auto simp: byteBit_def bit_or_iff bit_exp_iff)
  have p1: "Suc bitNo \<le> nat bps" "Suc bi + (nat bps - Suc bitNo) \<le> tb"
    using lt Suc.prems by linarith+
  note ih = Suc.hyps(1) [OF n p1, of ?s1]
  have step: "encodeBits data bps tb bitNo bi symbol =
                encodeBits data bps tb (Suc bitNo) (Suc bi) ?s1"
    using encodeBits_step [OF lt] .
  have "\<forall>j. bit (fst (encodeBits data bps tb bitNo bi symbol)) j \<longleftrightarrow>
               bit symbol j \<or>
               (j < B - bitNo \<and> byteBit data (bi + (B - 1 - bitNo - j)))"
  proof
    fix j
    from ih have "bit (fst (encodeBits data bps tb bitNo bi symbol)) j \<longleftrightarrow>
        bit ?s1 j \<or> (j < B - Suc bitNo \<and> byteBit data (Suc bi + (B - 1 - Suc bitNo - j)))"
      unfolding step B_def by blast
    also have "\<dots> \<longleftrightarrow> bit symbol j \<or>
               (j < B - bitNo \<and> byteBit data (bi + (B - 1 - bitNo - j)))"
    proof (cases "j = B - 1 - bitNo")
      case True
      then have "\<not> j < B - Suc bitNo" "j < B - bitNo" "bi + (B - 1 - bitNo - j) = bi"
        using B(1) by simp_all
      then show ?thesis using s1 [of j] True by simp
    next
      case False
      have "j < B - Suc bitNo \<longleftrightarrow> j < B - bitNo" using False B(1) by linarith
      moreover have "j < B - Suc bitNo \<Longrightarrow>
          Suc bi + (B - 1 - Suc bitNo - j) = bi + (B - 1 - bitNo - j)" by linarith
      ultimately show ?thesis using s1 [of j] False by auto
    qed
    finally show "bit (fst (encodeBits data bps tb bitNo bi symbol)) j \<longleftrightarrow>
               bit symbol j \<or>
               (j < B - bitNo \<and> byteBit data (bi + (B - 1 - bitNo - j)))" .
  qed
  moreover have "snd (encodeBits data bps tb bitNo bi symbol) = bi + (nat bps - bitNo)"
    using ih lt unfolding step by simp
  ultimately show ?case unfolding B_def by blast
qed


lemma symbolsFrom_nth:
  assumes "1 \<le> bps" "bps \<le> 63" "nat bps dvd length data * 8"
    and "si \<le> length data * 8 div nat bps" and "bi = si * nat bps"
  shows "length (symbolsFrom data bps (int (length data * 8 div nat bps)) si bi)
           = length data * 8 div nat bps - si \<and>
         (\<forall>i < length data * 8 div nat bps - si.
            symbolsFrom data bps (int (length data * 8 div nat bps)) si bi ! i =
              fst (encodeBits data bps (length data * 8) 0 ((si + i) * nat bps) 0))"
  using assms(4,5)
proof (induction "length data * 8 div nat bps - si" arbitrary: si bi)
  case 0
  then have "\<not> int si < int (length data * 8 div nat bps)" by simp
  then show ?case using 0 by (simp add: symbolsFrom_stop)
next
  case (Suc n)
  define B where "B = nat bps"
  define tb where "tb = length data * 8"
  define sc where "sc = tb div B"
  have B: "0 < B" using assms(1) by (simp add: B_def)
  have lt: "si < sc" and n: "n = sc - Suc si"
    using Suc.hyps(2) by (simp_all add: sc_def tb_def B_def)
  have tbB: "sc * B = tb" using assms(3) by (simp add: sc_def tb_def B_def)
  have "Suc si * B \<le> sc * B" using lt by (intro mult_le_mono1) simp
  then have room: "bi + (nat bps - 0) \<le> length data * 8"
    using Suc.prems(2) tbB by (simp add: B_def tb_def)
  obtain symbol bi' where eb: "encodeBits data bps (length data * 8) 0 bi 0 = (symbol, bi')"
    by (cases "encodeBits data bps (length data * 8) 0 bi 0")
  have nn: "0 \<le> bps" "0 \<le> nat bps" using assms(1) by simp_all
  have "snd (encodeBits data bps (length data * 8) 0 bi 0) = bi + (nat bps - 0)"
    using encodeBits_bits [OF nn(1) assms(2) nn(2) room] by blast
  then have bi': "bi' = Suc si * nat bps" using eb Suc.prems(2) by simp
  have lt': "int si < int (length data * 8 div nat bps)"
    using lt by (simp add: sc_def tb_def B_def)
  have step: "symbolsFrom data bps (int (length data * 8 div nat bps)) si bi =
          symbol # symbolsFrom data bps (int (length data * 8 div nat bps)) (Suc si) bi'"
    using symbolsFrom_step [OF lt' eb] .
  have p: "Suc si \<le> length data * 8 div nat bps" using lt by (simp add: sc_def tb_def B_def)
  have n': "n = length data * 8 div nat bps - Suc si" using n by (simp add: sc_def tb_def B_def)
  note ih = Suc.hyps(1) [OF n' p bi']
  have len: "length (symbolsFrom data bps (int (length data * 8 div nat bps)) si bi)
           = length data * 8 div nat bps - si"
  proof -
    have "length (symbolsFrom data bps (int (length data * 8 div nat bps)) si bi)
            = Suc (length data * 8 div nat bps - Suc si)"
      unfolding step using ih by simp
    also have "\<dots> = length data * 8 div nat bps - si" using p by linarith
    finally show ?thesis .
  qed
  have nth: "\<forall>i < length data * 8 div nat bps - si.
            symbolsFrom data bps (int (length data * 8 div nat bps)) si bi ! i =
              fst (encodeBits data bps (length data * 8) 0 ((si + i) * nat bps) 0)"
  proof (intro allI impI)
    fix i assume i: "i < length data * 8 div nat bps - si"
    show "symbolsFrom data bps (int (length data * 8 div nat bps)) si bi ! i =
              fst (encodeBits data bps (length data * 8) 0 ((si + i) * nat bps) 0)"
    proof (cases i)
      case 0
      have "symbolsFrom data bps (int (length data * 8 div nat bps)) si bi ! 0 = symbol"
        unfolding step by simp
      also have "symbol = fst (encodeBits data bps (length data * 8) 0 bi 0)"
        using eb by simp
      finally show ?thesis using 0 Suc.prems(2) by simp
    next
      case (Suc i')
      then have "i' < length data * 8 div nat bps - Suc si" using i by simp
      with ih have "symbolsFrom data bps (int (length data * 8 div nat bps)) (Suc si) bi' ! i' =
              fst (encodeBits data bps (length data * 8) 0 ((Suc si + i') * nat bps) 0)"
        by blast
      moreover have "symbolsFrom data bps (int (length data * 8 div nat bps)) si bi ! Suc i' =
          symbolsFrom data bps (int (length data * 8 div nat bps)) (Suc si) bi' ! i'"
        unfolding step by simp
      ultimately show ?thesis using Suc by simp
    qed
  qed
  from len nth show ?case by blast
qed

lemma ceil_div_dvd:
  assumes "0 < (B::nat)" "B dvd t"
  shows "(int t + int B - 1) div int B = int (t div B)"
proof -
  from assms(2) obtain q where "t = B * q" by (rule dvdE)
  then have t: "t = q * B" by (simp only: mult.commute)
  have "int t + int B - 1 = int (B - 1) + int q * int B"
    using assms(1) t by (simp add: of_nat_diff)
  then have "(int t + int B - 1) div int B = (int (B - 1) + int q * int B) div int B"
    by (rule arg_cong)
  also have "\<dots> = int q + int (B - 1) div int B"
    using assms(1) by (intro div_mult_self1) simp
  also have "int (B - 1) div int B = 0"
    using assms(1) by (intro div_pos_pos_trivial) simp_all
  finally show ?thesis using t assms(1) by simp
qed


lemma sentSymbols_eq:
  assumes "1 \<le> Order (config m)" "nat (Order (config m)) dvd length data * 8"
  shows "sentSymbols m data =
           symbolsFrom data (Order (config m))
             (int (length data * 8 div nat (Order (config m)))) 0 0"
proof -
  define B where "B = nat (Order (config m))"
  define tb where "tb = length data * 8"
  have B: "0 < B" "Order (config m) = int B" using assms(1) by (simp_all add: B_def)
  have d: "B dvd tb" using assms(2) by (simp add: B_def tb_def)
  have "quo (int tb + int B - 1) (int B) = (int tb + int B - 1) div int B"
    using B(1) by (intro quo_nonneg) simp_all
  also have "\<dots> = int (tb div B)" using ceil_div_dvd [OF B(1) d] .
  finally have "quo (int tb + int B - 1) (int B) = int (tb div B)" .
  then have "quo (int (length data * 8) + Order (config m) - 1) (Order (config m)) =
               int (length data * 8 div nat (Order (config m)))"
    unfolding tb_def B_def using assms(1) by simp
  then show ?thesis unfolding sentSymbols_def by simp
qed

lemma sentSymbols_length:
  assumes "1 \<le> Order (config m)" "Order (config m) \<le> 63"
    and "nat (Order (config m)) dvd length data * 8"
  shows "length (sentSymbols m data) = length data * 8 div nat (Order (config m))"
  using symbolsFrom_nth [OF assms(1,2,3), of 0 0]
  unfolding sentSymbols_eq [OF assms(1,3)] by simp

lemma sentSymbols_nth:
  assumes "1 \<le> Order (config m)" "Order (config m) \<le> 63"
    and "nat (Order (config m)) dvd length data * 8"
    and "k < length data * 8 div nat (Order (config m))"
  shows "sentSymbols m data ! k =
           fst (encodeBits data (Order (config m)) (length data * 8) 0
                  (k * nat (Order (config m))) 0)"
  using symbolsFrom_nth [OF assms(1,2,3), of 0 0] assms(4)
  unfolding sentSymbols_eq [OF assms(1,3)] by simp

lemma sentSymbols_bits:
  assumes "1 \<le> Order (config m)" "Order (config m) \<le> 63"
    and "nat (Order (config m)) dvd length data * 8"
    and "k < length data * 8 div nat (Order (config m))"
  shows "bit (sentSymbols m data ! k) j \<longleftrightarrow>
           j < nat (Order (config m)) \<and>
           byteBit data (k * nat (Order (config m)) + (nat (Order (config m)) - 1 - j))"
proof -
  define B where "B = nat (Order (config m))"
  define tb where "tb = length data * 8"
  have "Suc k \<le> tb div B" using assms(4) by (simp add: tb_def B_def)
  then have "Suc k * B \<le> (tb div B) * B" by (rule mult_le_mono1)
  also have "\<dots> = tb" using assms(3) by (simp add: tb_def B_def)
  finally have "k * B + B \<le> tb" by simp
  then have room: "k * nat (Order (config m)) + (nat (Order (config m)) - 0) \<le> length data * 8"
    by (simp add: B_def tb_def)
  have nn: "0 \<le> Order (config m)" "0 \<le> nat (Order (config m))" using assms(1) by simp_all
  have "\<forall>j. bit (fst (encodeBits data (Order (config m)) (length data * 8) 0
                       (k * nat (Order (config m))) 0)) j \<longleftrightarrow>
               bit (0::int) j \<or>
               (j < nat (Order (config m)) - 0 \<and>
                byteBit data (k * nat (Order (config m)) + (nat (Order (config m)) - 1 - 0 - j)))"
    using encodeBits_bits [OF nn(1) assms(2) nn(2) room] by blast
  then show ?thesis
    unfolding sentSymbols_nth [OF assms] by simp
qed

lemma sentSymbols_range:
  assumes "1 \<le> Order (config m)" "Order (config m) \<le> 63"
    and "nat (Order (config m)) dvd length data * 8"
    and "k < length data * 8 div nat (Order (config m))"
  shows "0 \<le> sentSymbols m data ! k \<and> sentSymbols m data ! k < 2 ^ nat (Order (config m))"
  unfolding sentSymbols_nth [OF assms]
  using encodeBits_range [of "Order (config m)" 0] assms(2) by simp

lemma Decode_of_sent:
  assumes enc: "encodable m" and per: "0 < symbolPeriod m"
    and dv: "nat (Order (config m)) dvd length data * 8"
    and e: "Encode m data = Inr (signal, m')"
    and det: "\<forall>k < length data * 8 div nat (Order (config m)).
                detectSymbol m' (windowAt m' signal k) = sentSymbols m data ! k"
  shows "length signal = length data * 8 div nat (Order (config m)) * nat (symbolPeriod m)"
    and "Decode m' signal = Inr data"
proof -
  define B where "B = nat (Order (config m))"
  define P where "P = nat (symbolPeriod m)"
  define t where "t = length data * 8"
  define sc where "sc = t div B"
  have o: "1 \<le> Order (config m)" "Order (config m) \<le> 62" "Order (config m) \<le> 63"
    "0 \<le> Order (config m)"
    using enc by (simp_all add: encodable_def)
  have B: "0 < B" "Order (config m) = int B" using o(1) by (simp_all add: B_def)
  have P: "0 < P" "symbolPeriod m = int P" using per by (simp_all add: P_def)
  have d: "B dvd t" using dv by (simp add: B_def t_def)
  then have scB: "sc * B = t" by (simp add: sc_def)
  from Encode_total [OF enc, of data] e obtain ph where
    m': "m' = m\<lparr>phase := ph\<rparr>"
    and len: "int (length signal) =
                ((int (length data * 8) + Order (config m) - 1) div Order (config m)) * symbolPeriod m"
    by auto
  have "(int t + int B - 1) div int B = int (t div B)"
    by (rule ceil_div_dvd [OF B(1) d])
  then have "int (length signal) = int sc * int P"
    using len unfolding B(2) P(2) t_def [symmetric] sc_def by simp
  then have ls: "length signal = sc * P"
    by (metis of_nat_mult of_nat_eq_iff)
  show "length signal = length data * 8 div nat (Order (config m)) * nat (symbolPeriod m)"
    using ls by (simp add: sc_def t_def B_def P_def)
  have c': "config m' = config m" "symbolPeriod m' = symbolPeriod m"
    by (simp_all add: m')
  have per': "0 < symbolPeriod m'" and o': "0 \<le> Order (config m')"
    using per o(4) by (simp_all add: c')
  have n: "length signal div nat (symbolPeriod m') = sc"
    using P(1) by (simp add: c' ls P_def [symmetric])
  define syms where "syms = detectedSymbols m' signal"
  have len_syms: "length syms = sc"
    using length_detectedSymbols [OF per', of signal] n by (simp add: syms_def)
  have len_sent: "length (sentSymbols m data) = sc"
    using sentSymbols_length [OF o(1,3) dv] by (simp add: sc_def t_def B_def)
  have syms: "syms = sentSymbols m data"
  proof (rule nth_equalityI)
    show "length syms = length (sentSymbols m data)" using len_syms len_sent by simp
    fix k assume "k < length syms"
    then have k: "k < sc" using len_syms by simp
    then have k': "k < length signal div nat (symbolPeriod m')" using n by simp
    have "syms ! k = detectSymbol m' (windowAt m' signal k)"
      unfolding syms_def by (rule detectedSymbols_nth(2) [OF per' k'])
    also have "\<dots> = sentSymbols m data ! k"
      using det k by (simp add: sc_def t_def B_def)
    finally show "syms ! k = sentSymbols m data ! k" .
  qed
  have bytes8: "(t + 7) div 8 = length data" by (simp add: t_def)
  define bytes where
    "bytes = decodeBytes (Order (config m)) (int sc * Order (config m)) syms 0
               (replicate (length data) 0)"
  have n0: "length signal div nat (symbolPeriod m) = sc"
    using n by (simp add: c')
  have dec: "Decode m' signal = (if sc = 0 then Inr [] else Inr bytes)"
    using Decode_eq [OF per' o', of signal]
    unfolding c' n0 bytes_def syms_def B_def [symmetric] scB bytes8 by simp
  have rng: "\<forall>s \<in> set syms. 0 \<le> s \<and> s < 2 ^ 63"
  proof
    fix s assume "s \<in> set syms"
    then obtain k where k: "k < sc" "s = sentSymbols m data ! k"
      unfolding syms using len_sent by (auto simp: in_set_conv_nth)
    then have k': "k < length data * 8 div nat (Order (config m))"
      by (simp add: sc_def t_def B_def)
    from sentSymbols_range [OF o(1,3) dv k']
    have "0 \<le> s" "s < 2 ^ B" using k(2) by (simp_all add: B_def)
    moreover have "(2::int) ^ B \<le> 2 ^ 63"
      using o(3) B(2) by (intro power_increasing) simp_all
    ultimately show "0 \<le> s \<and> s < 2 ^ 63" by simp
  qed
  have tb: "int sc * Order (config m) = int t"
    unfolding B(2) using scB by (metis of_nat_mult)
  have room: "int (0 + length syms * nat (Order (config m))) \<le> int sc * Order (config m)"
    unfolding tb using scB len_syms by (simp add: B_def)
  have cap: "int sc * Order (config m) \<le> 8 * int (length (replicate (length data) (0::byte)))"
    unfolding tb by (simp add: t_def)
  from decodeBytes_spec [OF rng o(4) room cap]
  have len_bytes: "length bytes = length data"
    and bits: "\<And>b. byteBit bytes b \<longleftrightarrow>
               byteBit (replicate (length data) 0) b \<or>
               (b < sc * B \<and> bit (syms ! (b div B)) (B - 1 - b mod B))"
    by (simp_all add: bytes_def len_syms B_def)
  have same: "\<forall>b < 8 * length bytes. byteBit bytes b = byteBit data b"
  proof (intro allI impI)
    fix b assume "b < 8 * length bytes"
    then have b: "b < t" by (simp add: len_bytes t_def)
    then have bz: "\<not> byteBit (replicate (length data) 0) b"
      by (intro byteBit_zeros) (simp add: t_def)
    have k: "b div B < sc"
      using b scB B(1) by (simp add: less_mult_imp_div_less)
    then have k': "b div B < length data * 8 div nat (Order (config m))"
      by (simp add: sc_def t_def B_def)
    have j: "B - 1 - b mod B < B" using B(1) by simp
    have "b mod B < B" using B(1) by simp
    then have bk: "B - 1 - (B - 1 - b mod B) = b mod B" by simp
    have "bit (syms ! (b div B)) (B - 1 - b mod B) \<longleftrightarrow>
            B - 1 - b mod B < B \<and> byteBit data (b div B * B + (B - 1 - (B - 1 - b mod B)))"
      unfolding syms using sentSymbols_bits [OF o(1,3) dv k'] by (simp add: B_def)
    also have "\<dots> \<longleftrightarrow> byteBit data b"
      unfolding bk using j by simp
    finally show "byteBit bytes b = byteBit data b"
      using bits [of b] bz b scB by simp
  qed
  have eq: "bytes = data"
    by (rule byteBit_ext [OF len_bytes same])
  show "Decode m' signal = Inr data"
  proof (cases "sc = 0")
    case True
    with scB have "t = 0" by simp
    then have "data = []" by (simp add: t_def)
    with dec True show ?thesis by simp
  next
    case False
    with dec eq show ?thesis by simp
  qed
qed

lemma quotient64_unit: "quotient64 48000 48000 = Some 1"
  by (simp add: quotient64_def round64_48000 round64_1)

lemma New_unit:
  "New linuxAmd64 \<lparr>BaseFreq = 1000, FreqSpacing = 200, Order = 2, BaudRate = 48000,
                     SampleRate = 48000\<rparr> = Inr unitModem"
  by (simp add: New_def float_to_int_def quotient64_unit truncInt_def shl1_def makeFloat64s_def
      linuxAmd64_def Let_def unitModem_def fillFrequencies_eq upt_conv_Cons)
     (simp add: numeral_eq_Suc)

lemma encodable_unitModem: "encodable unitModem"
  by (simp add: encodable_def unitModem_def)

lemma detect_unit: "detectSymbol unitModem [s] = 0"
  by (simp add: detectSymbol_def unitModem_def correlateWithFrequency_def Let_def)

lemma Decode_zero_symbols:
  assumes per: "0 < symbolPeriod m" and o: "0 \<le> Order (config m)"
    and z: "\<forall>k < length signal div nat (symbolPeriod m). detectSymbol m (windowAt m signal k) = 0"
  shows "Decode m signal =
           Inr (replicate ((length signal div nat (symbolPeriod m) * nat (Order (config m)) + 7)
                             div 8) 0)"
proof -
  define n where "n = length signal div nat (symbolPeriod m)"
  define B where "B = nat (Order (config m))"
  define syms where "syms = detectedSymbols m signal"
  define bytes where
    "bytes = decodeBytes (Order (config m)) (int n * Order (config m)) syms 0
               (replicate ((n * B + 7) div 8) 0)"
  have len_syms: "length syms = n"
    using length_detectedSymbols [OF per, of signal] by (simp add: syms_def n_def)
  have nth_syms: "\<forall>k < n. syms ! k = 0"
  proof (intro allI impI)
    fix k assume "k < n"
    then have k: "k < length signal div nat (symbolPeriod m)" by (simp add: n_def)
    from detectedSymbols_nth(2) [OF per k] z k show "syms ! k = 0"
      by (simp add: syms_def)
  qed
  have rng: "\<forall>s \<in> set syms. 0 \<le> s \<and> s < 2 ^ 63"
    using nth_syms len_syms by (auto simp: in_set_conv_nth)
  have tb: "int n * Order (config m) = int (n * B)"
    using o by (simp add: B_def)
  have room: "int (0 + length syms * nat (Order (config m))) \<le> int n * Order (config m)"
    unfolding tb by (simp add: len_syms B_def)
  have cap: "int n * Order (config m) \<le> 8 * int (length (replicate ((n * B + 7) div 8) (0::byte)))"
    unfolding tb using ceil8_room [of "n * B"] by simp
  from decodeBytes_spec [OF rng o room cap]
  have len_bytes: "length bytes = (n * B + 7) div 8"
    and bits: "\<And>b. byteBit bytes b \<longleftrightarrow>
               byteBit (replicate ((n * B + 7) div 8) 0) b \<or>
               (b < n * B \<and> bit (syms ! (b div B)) (B - 1 - b mod B))"
    by (simp_all add: bytes_def len_syms B_def)
  have same: "\<forall>b < 8 * length bytes. byteBit bytes b = byteBit (replicate ((n * B + 7) div 8) 0) b"
  proof (intro allI impI)
    fix b assume "b < 8 * length bytes"
    show "byteBit bytes b = byteBit (replicate ((n * B + 7) div 8) 0) b"
    proof (cases "b < n * B")
      case True
      then have "0 < B" by (cases B) simp_all
      with True have "b div B < n" by (simp add: less_mult_imp_div_less)
      with nth_syms have "syms ! (b div B) = 0" by blast
      with bits [of b] show ?thesis by simp
    next
      case False
      with bits [of b] show ?thesis by simp
    qed
  qed
  have eq: "bytes = replicate ((n * B + 7) div 8) 0"
    using len_bytes by (intro byteBit_ext same) simp
  have "Decode m signal = (if n = 0 then Inr [] else Inr bytes)"
    using Decode_eq [OF per o, of signal]
    by (simp add: bytes_def syms_def n_def B_def)
  then show ?thesis
    unfolding eq n_def [symmetric] B_def [symmetric] by simp
qed

lemma Decode_unit:
  assumes "length signal = 4"
  shows "Decode unitModem signal = Inr [0]"
proof -
  have per: "0 < symbolPeriod unitModem" and o: "0 \<le> Order (config unitModem)"
    by (simp_all add: unitModem_def)
  have p: "nat (symbolPeriod unitModem) = 1" "nat (Order (config unitModem)) = 2"
    by (simp_all add: unitModem_def)
  have z: "\<forall>k < length signal div nat (symbolPeriod unitModem).
             detectSymbol unitModem (windowAt unitModem signal k) = 0"
  proof (intro allI impI)
    fix k assume k: "k < length signal div nat (symbolPeriod unitModem)"
    then have k4: "k < length signal" by (simp add: p)
    have "windowAt unitModem signal k = take 1 (drop (k * 1) signal)"
      using windowAt_aligned [OF per k] by (simp add: p)
    also have "\<dots> = [signal ! k]"
      using k4 by (simp add: Cons_nth_drop_Suc [symmetric])
    finally show "detectSymbol unitModem (windowAt unitModem signal k) = 0"
      by (simp add: detect_unit)
  qed
  from Decode_zero_symbols [OF per o z] show ?thesis
    by (simp add: p assms)
qed


subsection \<open>Orthogonal tones\<close>

lemma cos_sum_telescope:
  "2 * sin (\<theta> / 2) * (\<Sum>n<N. cos (real n * \<theta>)) = sin ((real N - 1 / 2) * \<theta>) + sin (\<theta> / 2)"
proof (induction N)
  case 0
  have "sin (- (\<theta> / 2)) = - sin (\<theta> / 2)" by (rule sin_minus)
  then show ?case by simp
next
  case (Suc N)
  have "2 * sin (\<theta> / 2) * cos (real N * \<theta>) =
          sin (\<theta> / 2 + real N * \<theta>) + sin (\<theta> / 2 - real N * \<theta>)"
    using sin_times_cos [of "\<theta> / 2" "real N * \<theta>"] by simp
  also have "\<theta> / 2 + real N * \<theta> = (real (Suc N) - 1 / 2) * \<theta>"
    by (simp add: algebra_simps)
  also have "sin (\<theta> / 2 - real N * \<theta>) = - sin ((real N - 1 / 2) * \<theta>)"
  proof -
    have "\<theta> / 2 - real N * \<theta> = - ((real N - 1 / 2) * \<theta>)" by (simp add: algebra_simps)
    then show ?thesis by (simp only: sin_minus)
  qed
  finally have step: "2 * sin (\<theta> / 2) * cos (real N * \<theta>) =
      sin ((real (Suc N) - 1 / 2) * \<theta>) - sin ((real N - 1 / 2) * \<theta>)"
    by simp
  have "2 * sin (\<theta> / 2) * (\<Sum>n<Suc N. cos (real n * \<theta>)) =
          2 * sin (\<theta> / 2) * (\<Sum>n<N. cos (real n * \<theta>)) + 2 * sin (\<theta> / 2) * cos (real N * \<theta>)"
    by (simp add: algebra_simps)
  also have "\<dots> = sin ((real (Suc N) - 1 / 2) * \<theta>) + sin (\<theta> / 2)"
    unfolding Suc.IH step by simp
  finally show ?case .
qed

lemma cos_sum_zero:
  assumes "real N * \<theta> = 2 * pi * real_of_int k" and "sin (\<theta> / 2) \<noteq> 0"
  shows "(\<Sum>n<N. cos (real n * \<theta>)) = 0"
proof -
  have "(real N - 1 / 2) * \<theta> = 2 * pi * real_of_int k - \<theta> / 2"
    using assms(1) by (simp add: algebra_simps)
  then have "sin ((real N - 1 / 2) * \<theta>) = sin (2 * pi * real_of_int k - \<theta> / 2)"
    by simp
  also have "\<dots> = - sin (\<theta> / 2)"
    by (simp add: sin_diff)
  finally have "2 * sin (\<theta> / 2) * (\<Sum>n<N. cos (real n * \<theta>)) = 0"
    unfolding cos_sum_telescope by simp
  with assms(2) show ?thesis by simp
qed

lemma sin_fraction_nonzero:
  assumes "0 < (k::int)" and "k < int N"
  shows "sin (pi * real_of_int k / real N) \<noteq> 0"
proof -
  have N: "0 < real N" using assms by (cases N) simp_all
  have "0 < pi * real_of_int k / real N"
    using assms(1) N by simp
  moreover have "pi * real_of_int k / real N < pi"
  proof -
    have "real_of_int k < real N" using assms(2) by linarith
    then have "real_of_int k / real N < 1" using N by simp
    then have "pi * (real_of_int k / real N) < pi * 1"
      by (intro mult_strict_left_mono) simp_all
    then show ?thesis by simp
  qed
  ultimately have "0 < sin (pi * real_of_int k / real N)"
    by (rule sin_gt_zero)
  then show ?thesis by simp
qed

lemma cos_sum_cycles:
  assumes "0 < (k::int)" and "k < int N"
  shows "(\<Sum>n<N. cos (real n * (2 * pi * real_of_int k / real N))) = 0"
proof (rule cos_sum_zero)
  have N: "real N \<noteq> 0" using assms by (cases N) simp_all
  show "real N * (2 * pi * real_of_int k / real N) = 2 * pi * real_of_int k"
    using N by simp
  have "2 * pi * real_of_int k / real N / 2 = pi * real_of_int k / real N"
    by simp
  then show "sin (2 * pi * real_of_int k / real N / 2) \<noteq> 0"
    using sin_fraction_nonzero [OF assms] by simp
qed

lemma sin_sin_sum:
  "(\<Sum>n<N. sin (real n * a) * sin (real n * b)) =
     ((\<Sum>n<N. cos (real n * (a - b))) - (\<Sum>n<N. cos (real n * (a + b)))) / 2"
proof -
  have "(\<Sum>n<N. sin (real n * a) * sin (real n * b)) =
          (\<Sum>n<N. (cos (real n * (a - b)) - cos (real n * (a + b))) / 2)"
    by (rule sum.cong) (simp_all add: sin_times_sin algebra_simps)
  also have "\<dots> = (\<Sum>n<N. cos (real n * (a - b)) - cos (real n * (a + b))) / 2"
    by (simp only: sum_divide_distrib)
  also have "\<dots> = ((\<Sum>n<N. cos (real n * (a - b))) - (\<Sum>n<N. cos (real n * (a + b)))) / 2"
    by (simp only: sum_subtractf)
  finally show ?thesis .
qed

text \<open>Two tones with whole numbers of cycles in a window, below half the sample rate.\<close>

lemma tone_orthogonal:
  assumes "0 < (ca::int)" "2 * ca < int N" "0 < (cb::int)" "2 * cb < int N"
  shows "(\<Sum>n<N. sin (real n * (2 * pi * real_of_int ca / real N))
                 * sin (real n * (2 * pi * real_of_int cb / real N))) =
           (if ca = cb then real N / 2 else 0)"
proof -
  let ?a = "2 * pi * real_of_int ca / real N"
  let ?b = "2 * pi * real_of_int cb / real N"
  have plus: "?a + ?b = 2 * pi * real_of_int (ca + cb) / real N"
    by (simp add: add_divide_distrib algebra_simps)
  have minus: "?a - ?b = 2 * pi * real_of_int (ca - cb) / real N"
    by (simp add: diff_divide_distrib algebra_simps)
  have sp: "(\<Sum>n<N. cos (real n * (?a + ?b))) = 0"
    unfolding plus using assms by (intro cos_sum_cycles) simp_all
  show ?thesis
  proof (cases "ca = cb")
    case True
    then have "(\<Sum>n<N. cos (real n * (?a - ?b))) = real N" by simp
    with sp True show ?thesis unfolding sin_sin_sum by simp
  next
    case False
    have sm: "(\<Sum>n<N. cos (real n * (?a - ?b))) = 0"
    proof (cases "cb < ca")
      case True
      then show ?thesis unfolding minus using assms by (intro cos_sum_cycles) simp_all
    next
      case False
      with \<open>ca \<noteq> cb\<close> have lt: "ca < cb" by simp
      have "(\<Sum>n<N. cos (real n * (?a - ?b))) = (\<Sum>n<N. cos (real n * (?b - ?a)))"
      proof (rule sum.cong)
        fix n
        have "real n * (?a - ?b) = - (real n * (?b - ?a))" by (simp add: algebra_simps)
        then show "cos (real n * (?a - ?b)) = cos (real n * (?b - ?a))"
          by (simp only: cos_minus)
      qed simp
      also have "?b - ?a = 2 * pi * real_of_int (cb - ca) / real N"
        by (simp add: diff_divide_distrib algebra_simps)
      also have "(\<Sum>n<N. cos (real n * (2 * pi * real_of_int (cb - ca) / real N))) = 0"
        using lt assms by (intro cos_sum_cycles) simp_all
      finally show ?thesis .
    qed
    with sp False show ?thesis unfolding sin_sin_sum by simp
  qed
qed

lemma correlateLoop_sum:
  assumes "sin ph = sin x" and "cos ph = cos x"
  shows "correlateLoop inc samples corr ph =
           corr + (\<Sum>i<length samples. samples ! i * sin (x + real i * inc))"
  using assms
proof (induction samples arbitrary: corr ph x)
  case Nil
  then show ?case by simp
next
  case (Cons s rest)
  let ?ph' = "if ph + inc \<ge> 2 * pi then ph + inc - 2 * pi else ph + inc"
  have s': "sin ?ph' = sin (x + inc)" and c': "cos ?ph' = cos (x + inc)"
    using Cons.prems by (simp_all add: sin_add cos_add sin_diff cos_diff)
  have "correlateLoop inc (s # rest) corr ph = correlateLoop inc rest (corr + s * sin ph) ?ph'"
    by (simp add: Let_def)
  also have "\<dots> = corr + s * sin ph +
                 (\<Sum>i<length rest. rest ! i * sin (x + inc + real i * inc))"
    by (rule Cons.IH [OF s' c'])
  also have "(\<Sum>i<length rest. rest ! i * sin (x + inc + real i * inc)) =
               (\<Sum>i<length rest. (s # rest) ! Suc i * sin (x + real (Suc i) * inc))"
    by (rule sum.cong) (simp_all add: algebra_simps)
  also have "corr + s * sin ph + (\<Sum>i<length rest. (s # rest) ! Suc i * sin (x + real (Suc i) * inc)) =
               corr + (\<Sum>i<length (s # rest). (s # rest) ! i * sin (x + real i * inc))"
  proof -
    have "(\<Sum>i<Suc (length rest). (s # rest) ! i * sin (x + real i * inc)) =
            (s # rest) ! 0 * sin (x + real 0 * inc) +
            (\<Sum>i<length rest. (s # rest) ! Suc i * sin (x + real (Suc i) * inc))"
      by (rule sum.lessThan_Suc_shift)
    then have "(\<Sum>i<length (s # rest). (s # rest) ! i * sin (x + real i * inc)) =
            s * sin ph + (\<Sum>i<length rest. (s # rest) ! Suc i * sin (x + real (Suc i) * inc))"
      using Cons.prems(1) by simp
    then show ?thesis by simp
  qed
  finally show ?case .
qed

lemma encodeSamples_tone:
  assumes "symbol < length ph" and "sin (ph ! symbol) = sin x" and "cos (ph ! symbol) = cos x"
    and "symbolIdx * P + P \<le> length out0" and "sampleIdx \<le> P"
  shows "(\<forall>n. sampleIdx \<le> n \<and> n < P \<longrightarrow>
            fst (encodeSamples (int P) symbolIdx symbol inc sampleIdx out0 ph) ! (symbolIdx * P + n) =
              0.5 * sin (x + real (n - sampleIdx) * inc)) \<and>
         (\<forall>j. j < symbolIdx * P + sampleIdx \<or> symbolIdx * P + P \<le> j \<longrightarrow>
            fst (encodeSamples (int P) symbolIdx symbol inc sampleIdx out0 ph) ! j = out0 ! j) \<and>
         sin (snd (encodeSamples (int P) symbolIdx symbol inc sampleIdx out0 ph) ! symbol) =
           sin (x + real (P - sampleIdx) * inc) \<and>
         cos (snd (encodeSamples (int P) symbolIdx symbol inc sampleIdx out0 ph) ! symbol) =
           cos (x + real (P - sampleIdx) * inc)"
  using assms
proof (induction "P - sampleIdx" arbitrary: sampleIdx out0 ph x)
  case 0
  then have "\<not> int sampleIdx < int P" and "P - sampleIdx = 0" by simp_all
  with 0 show ?case by (simp add: encodeSamples_stop)
next
  case (Suc k)
  then have lt: "sampleIdx < P" and k: "k = P - Suc sampleIdx" by simp_all
  let ?idx = "symbolIdx * P + sampleIdx"
  have idx: "?idx < length out0" using lt Suc.prems(4) by simp
  let ?out' = "out0[?idx := 0.5 * sin (ph ! symbol)]"
  let ?p = "ph ! symbol + inc"
  let ?ph' = "(if (ph[symbol := ?p]) ! symbol \<ge> 2 * pi
              then (ph[symbol := ?p])[symbol := (ph[symbol := ?p]) ! symbol - 2 * pi]
              else ph[symbol := ?p])"
  have step: "encodeSamples (int P) symbolIdx symbol inc sampleIdx out0 ph =
                encodeSamples (int P) symbolIdx symbol inc (Suc sampleIdx) ?out' ?ph'"
  proof -
    have a: "int sampleIdx < int P" using lt by simp
    have b: "int symbolIdx * int P + int sampleIdx < int (length out0)"
      using idx by (metis of_nat_add of_nat_less_iff of_nat_mult)
    have c: "nat (int symbolIdx * int P + int sampleIdx) = ?idx"
      by (metis nat_int of_nat_add of_nat_mult)
    show ?thesis
      by (subst encodeSamples_step [OF a]) (simp only: b c if_True)
  qed
  have l': "symbol < length ?ph'" using Suc.prems(1) by simp
  have v: "?ph' ! symbol = (if ?p \<ge> 2 * pi then ?p - 2 * pi else ?p)"
    using Suc.prems(1) by simp
  have s': "sin (?ph' ! symbol) = sin (x + inc)" and c': "cos (?ph' ! symbol) = cos (x + inc)"
    unfolding v using Suc.prems(2,3) by (simp_all add: sin_add cos_add sin_diff cos_diff)
  have room': "symbolIdx * P + P \<le> length ?out'" using Suc.prems(4) by simp
  have le': "Suc sampleIdx \<le> P" using lt by simp
  note IH = Suc.hyps(1) [OF k l' s' c' room' le']
  let ?r = "encodeSamples (int P) symbolIdx symbol inc (Suc sampleIdx) ?out' ?ph'"
  from IH have tone: "\<forall>n. Suc sampleIdx \<le> n \<and> n < P \<longrightarrow>
            fst ?r ! (symbolIdx * P + n) = 0.5 * sin (x + inc + real (n - Suc sampleIdx) * inc)"
    and rest: "\<forall>j. j < symbolIdx * P + Suc sampleIdx \<or> symbolIdx * P + P \<le> j \<longrightarrow>
            fst ?r ! j = ?out' ! j"
    and fs: "sin (snd ?r ! symbol) = sin (x + inc + real (P - Suc sampleIdx) * inc)"
    and fc: "cos (snd ?r ! symbol) = cos (x + inc + real (P - Suc sampleIdx) * inc)"
    by blast+
  have "real (P - sampleIdx) = 1 + real (P - Suc sampleIdx)" using lt by linarith
  then have e1: "x + inc + real (P - Suc sampleIdx) * inc = x + real (P - sampleIdx) * inc"
    by (simp only: distrib_right mult_1 add.assoc)
  have A: "\<forall>n. sampleIdx \<le> n \<and> n < P \<longrightarrow>
            fst ?r ! (symbolIdx * P + n) = 0.5 * sin (x + real (n - sampleIdx) * inc)"
  proof (intro allI impI)
    fix n assume n: "sampleIdx \<le> n \<and> n < P"
    show "fst ?r ! (symbolIdx * P + n) = 0.5 * sin (x + real (n - sampleIdx) * inc)"
    proof (cases "n = sampleIdx")
      case True
      have "fst ?r ! ?idx = ?out' ! ?idx" using rest by simp
      also have "\<dots> = 0.5 * sin (ph ! symbol)" using idx by simp
      finally show ?thesis using True Suc.prems(2) by simp
    next
      case False
      with n have n': "Suc sampleIdx \<le> n \<and> n < P" by simp
      then have "real (n - sampleIdx) = 1 + real (n - Suc sampleIdx)" by linarith
      then have eq: "x + real (n - sampleIdx) * inc = x + inc + real (n - Suc sampleIdx) * inc"
        by (simp only: distrib_right mult_1 add.assoc)
      show ?thesis unfolding eq using tone n' by blast
    qed
  qed
  have B: "\<forall>j. j < symbolIdx * P + sampleIdx \<or> symbolIdx * P + P \<le> j \<longrightarrow> fst ?r ! j = out0 ! j"
  proof (intro allI impI)
    fix j assume j: "j < symbolIdx * P + sampleIdx \<or> symbolIdx * P + P \<le> j"
    then have "j \<noteq> ?idx" using lt by auto
    moreover from j have "fst ?r ! j = ?out' ! j" using rest by auto
    ultimately show "fst ?r ! j = out0 ! j" by simp
  qed
  show ?case
    unfolding step using A B fs fc unfolding e1 by blast
qed

lemma tone_cycles:
  assumes "orthogonalTones m" and "f \<in> set (frequencies m)"
  obtains c :: int where "0 < c" and "2 * c < symbolPeriod m"
    and "2 * pi * f / real_of_int (SampleRate (config m)) =
           2 * pi * real_of_int c / real (nat (symbolPeriod m))"
proof -
  let ?S = "real_of_int (SampleRate (config m))"
  let ?P = "real_of_int (symbolPeriod m)"
  from assms have S: "0 < ?S" and P: "0 < ?P" and f: "0 < f" "2 * f < ?S"
    and i: "f * ?P / ?S \<in> \<int>"
    by (auto simp: orthogonalTones_def)
  from i obtain c :: int where c: "f * ?P / ?S = real_of_int c"
    by (rule Ints_cases)
  have "0 < f * ?P / ?S" using f(1) P S by simp
  then have c0: "0 < c" unfolding c by simp
  have "2 * f * ?P < ?S * ?P" using f(2) P by (intro mult_strict_right_mono) simp_all
  then have "2 * (f * ?P / ?S) < ?P" using S by (simp add: field_simps)
  then have "real_of_int (2 * c) < ?P" unfolding c by simp
  then have c2: "2 * c < symbolPeriod m" by linarith
  have "f * ?P = real_of_int c * ?S" using c S by (simp add: field_simps)
  then have "f / ?S = real_of_int c / ?P" using S P by (simp add: field_simps)
  then have "2 * pi * (f / ?S) = 2 * pi * (real_of_int c / ?P)" by simp
  moreover have "real (nat (symbolPeriod m)) = ?P" using P by simp
  ultimately have "2 * pi * f / ?S = 2 * pi * real_of_int c / real (nat (symbolPeriod m))"
    by simp
  with c0 c2 that show ?thesis by blast
qed

lemma zero_wrapped: "\<forall>p \<in> set ph. p = 0 \<Longrightarrow> wrapped ph"
  using pi_gt_zero by (auto simp: wrapped_def)

lemma encodeSamples_cycle:
  assumes l: "symbol < length ph" and z: "\<forall>p \<in> set ph. p = 0"
    and inc: "0 \<le> inc" "inc < 2 * pi" and cyc: "real P * inc = 2 * pi * real_of_int c"
    and room: "symbolIdx * P + P \<le> length out0"
  shows "snd (encodeSamples (int P) symbolIdx symbol inc 0 out0 ph) = ph"
proof (rule nth_equalityI)
  let ?ph1 = "snd (encodeSamples (int P) symbolIdx symbol inc 0 out0 ph)"
  show len: "length ?ph1 = length ph"
    using length_encodeSamples [of "int P" symbolIdx symbol inc 0 out0 ph] by simp
  fix j assume "j < length ?ph1"
  then have j: "j < length ph" using len by simp
  show "?ph1 ! j = ph ! j"
  proof (cases "j = symbol")
    case False
    then show ?thesis by (rule encodeSamples_others)
  next
    case True
    have p0: "ph ! symbol = 0" using z l by simp
    have w: "wrapped ?ph1"
      by (rule encodeSamples_wrapped [OF l inc zero_wrapped [OF z]])
    then have r: "0 \<le> ?ph1 ! symbol" "?ph1 ! symbol < 2 * pi"
      using wrapped_nth [OF w, of symbol] l len by simp_all
    have "cos (?ph1 ! symbol) = cos (0 + real (P - 0) * inc)"
      using encodeSamples_tone [of symbol ph 0 symbolIdx P out0 0 inc] l p0 room by simp
    also have "\<dots> = 1" using cyc by simp
    finally obtain n :: int where n: "?ph1 ! symbol = real_of_int n * 2 * pi"
      unfolding cos_one_2pi_int by blast
    have "0 \<le> real_of_int n * (2 * pi)" "real_of_int n * (2 * pi) < 1 * (2 * pi)"
      using r n by simp_all
    then have "0 \<le> real_of_int n" "real_of_int n < 1"
      using pi_gt_zero by (simp_all add: zero_le_mult_iff)
    then have "n = 0" by linarith
    with n p0 True show ?thesis by simp
  qed
qed

lemma encodeSymbols_tones:
  assumes es: "encodeSymbols m data sc symbolIdx bitIndex out0 ph = Inr (out2, ph2)"
    and P: "symbolPeriod m = int P" "0 < P"
    and room: "int (length out0) = sc * int P"
    and tones: "\<forall>f \<in> set (frequencies m).
                  0 \<le> 2 * pi * f / real_of_int (SampleRate (config m)) \<and>
                  2 * pi * f / real_of_int (SampleRate (config m)) < 2 * pi \<and>
                  (\<exists>c::int. real P * (2 * pi * f / real_of_int (SampleRate (config m))) =
                              2 * pi * real_of_int c)"
    and zero: "\<forall>p \<in> set ph. p = 0"
  shows "ph2 = ph \<and> length out2 = length out0 \<and>
         (\<forall>j < symbolIdx * P. out2 ! j = out0 ! j) \<and>
         (\<forall>i < length (symbolsFrom data (Order (config m)) sc symbolIdx bitIndex). \<forall>n < P.
            out2 ! ((symbolIdx + i) * P + n) =
              0.5 * sin (real n *
                (2 * pi * (frequencies m !
                             nat (symbolsFrom data (Order (config m)) sc symbolIdx bitIndex ! i))
                   / real_of_int (SampleRate (config m)))))"
  using es room zero
proof (induction "nat (sc - int symbolIdx)" arbitrary: symbolIdx bitIndex out0)
  case 0
  then have "\<not> int symbolIdx < sc" by simp
  with 0 show ?case by (simp add: encodeSymbols_stop symbolsFrom_stop)
next
  case (Suc k)
  then have lt: "int symbolIdx < sc" and k: "k = nat (sc - int (Suc symbolIdx))"
    by auto
  from encodeSymbols_Inr_step [OF lt Suc.prems(1)]
  obtain symbol bitIndex' out1 ph1 where
    eb: "encodeBits data (Order (config m)) (length data * 8) 0 bitIndex 0 = (symbol, bitIndex')"
    and s: "0 \<le> symbol" "symbol < int (length (frequencies m))"
    and sp: "0 < symbolPeriod m \<longrightarrow> nat symbol < length ph"
    and es1: "encodeSamples (symbolPeriod m) symbolIdx (nat symbol)
       (2 * pi * (frequencies m ! nat symbol) / real_of_int (SampleRate (config m)))
       0 out0 ph = (out1, ph1)"
    and r: "encodeSymbols m data sc (Suc symbolIdx) bitIndex' out1 ph1 = Inr (out2, ph2)"
    by blast
  let ?inc = "2 * pi * (frequencies m ! nat symbol) / real_of_int (SampleRate (config m))"
  have fin: "frequencies m ! nat symbol \<in> set (frequencies m)"
    using s by (intro nth_mem) simp
  from tones fin obtain c :: int where inc: "0 \<le> ?inc" "?inc < 2 * pi"
    and cyc: "real P * ?inc = 2 * pi * real_of_int c"
    by blast
  have l: "nat symbol < length ph" using sp P by simp
  have p0: "ph ! nat symbol = 0" using Suc.prems(3) l by simp
  have "int (Suc symbolIdx) * int P \<le> sc * int P"
    using lt by (intro mult_right_mono) simp_all
  then have "int (symbolIdx * P + P) \<le> int (length out0)"
    unfolding Suc.prems(2) by (simp add: algebra_simps)
  then have rm: "symbolIdx * P + P \<le> length out0" by linarith
  have es1': "encodeSamples (int P) symbolIdx (nat symbol) ?inc 0 out0 ph = (out1, ph1)"
    using es1 unfolding P(1) .
  have ph1: "ph1 = ph"
    using encodeSamples_cycle [OF l Suc.prems(3) inc cyc rm] es1' by simp
  have len1: "length out1 = length out0"
    using length_encodeSamples [of "int P" symbolIdx "nat symbol" ?inc 0 out0 ph] es1' by simp
  from encodeSamples_tone [of "nat symbol" ph 0 symbolIdx P out0 0 ?inc] l p0 rm es1'
  have tone1: "\<forall>n < P. out1 ! (symbolIdx * P + n) = 0.5 * sin (real n * ?inc)"
    and rest1: "\<forall>j < symbolIdx * P. out1 ! j = out0 ! j"
    by simp_all
  have room1: "int (length out1) = sc * int P" using len1 Suc.prems(2) by simp
  note IH = Suc.hyps(1) [OF k r [unfolded ph1] room1 Suc.prems(3)]
  let ?syms' = "symbolsFrom data (Order (config m)) sc (Suc symbolIdx) bitIndex'"
  from IH have ph2: "ph2 = ph" and len2: "length out2 = length out1"
    and rest2: "\<forall>j < Suc symbolIdx * P. out2 ! j = out1 ! j"
    and tone2: "\<forall>i < length ?syms'. \<forall>n < P.
            out2 ! ((Suc symbolIdx + i) * P + n) =
              0.5 * sin (real n * (2 * pi * (frequencies m ! nat (?syms' ! i))
                   / real_of_int (SampleRate (config m))))"
    by blast+
  have syms: "symbolsFrom data (Order (config m)) sc symbolIdx bitIndex = symbol # ?syms'"
    by (rule symbolsFrom_step [OF lt eb])
  have A: "\<forall>j < symbolIdx * P. out2 ! j = out0 ! j"
  proof (intro allI impI)
    fix j assume j: "j < symbolIdx * P"
    then have "j < Suc symbolIdx * P" by simp
    with rest2 have "out2 ! j = out1 ! j" by blast
    with rest1 j show "out2 ! j = out0 ! j" by simp
  qed
  have B: "\<forall>i < length (symbol # ?syms'). \<forall>n < P.
            out2 ! ((symbolIdx + i) * P + n) =
              0.5 * sin (real n * (2 * pi * (frequencies m ! nat ((symbol # ?syms') ! i))
                   / real_of_int (SampleRate (config m))))"
  proof (intro allI impI)
    fix i n assume i: "i < length (symbol # ?syms')" and n: "n < P"
    show "out2 ! ((symbolIdx + i) * P + n) =
              0.5 * sin (real n * (2 * pi * (frequencies m ! nat ((symbol # ?syms') ! i))
                   / real_of_int (SampleRate (config m))))"
    proof (cases i)
      case 0
      have "symbolIdx * P + n < Suc symbolIdx * P" using n by simp
      with rest2 have "out2 ! (symbolIdx * P + n) = out1 ! (symbolIdx * P + n)" by blast
      with tone1 n 0 show ?thesis by simp
    next
      case (Suc i')
      then have i': "i' < length ?syms'" using i by simp
      have "(symbolIdx + i) * P + n = (Suc symbolIdx + i') * P + n"
        unfolding Suc by simp
      with tone2 i' n Suc show ?thesis by simp
    qed
  qed
  show ?case
    unfolding syms using ph2 len2 len1 A B by simp
qed

lemma Encode_tones:
  assumes enc: "encodable m" and ot: "orthogonalTones m"
    and fresh: "\<forall>p \<in> set (phase m). p = 0"
    and dv: "nat (Order (config m)) dvd length data * 8"
  shows "\<exists>signal. Encode m data = Inr (signal, m) \<and>
           length signal = length data * 8 div nat (Order (config m)) * nat (symbolPeriod m) \<and>
           (\<forall>k < length data * 8 div nat (Order (config m)). \<forall>n < nat (symbolPeriod m).
              signal ! (k * nat (symbolPeriod m) + n) =
                0.5 * sin (real n *
                  (2 * pi * (frequencies m ! nat (sentSymbols m data ! k))
                     / real_of_int (SampleRate (config m)))))"
proof -
  define B where "B = nat (Order (config m))"
  define P where "P = nat (symbolPeriod m)"
  define t where "t = length data * 8"
  define sc where "sc = t div B"
  let ?S = "real_of_int (SampleRate (config m))"
  have o: "1 \<le> Order (config m)" "Order (config m) \<le> 62" "Order (config m) \<le> 63"
    using enc by (simp_all add: encodable_def)
  have B: "0 < B" "Order (config m) = int B" using o(1) by (simp_all add: B_def)
  have S: "0 < ?S" and per: "0 < symbolPeriod m"
    using ot by (simp_all add: orthogonalTones_def)
  have P: "symbolPeriod m = int P" "0 < P" using per by (simp_all add: P_def)
  have d: "B dvd t" using dv by (simp add: B_def t_def)
  have "quo (int t + int B - 1) (int B) = (int t + int B - 1) div int B"
    using B(1) by (intro quo_nonneg) simp_all
  also have "\<dots> = int sc" unfolding sc_def by (rule ceil_div_dvd [OF B(1) d])
  finally have q: "quo (int (length data * 8) + Order (config m) - 1) (Order (config m)) = int sc"
    unfolding t_def B(2) .
  from Encode_total [OF enc, of data] obtain signal ph where
    e: "Encode m data = Inr (signal, m\<lparr>phase := ph\<rparr>)"
    by blast
  have "0 \<le> int (sc * P)" by (rule of_nat_0_le_iff)
  then have nn: "\<not> int sc * int P < 0" by (simp only: of_nat_mult not_less)
  have nz: "Order (config m) \<noteq> 0" "\<not> int sc * int P < 0" using o(1) nn by simp_all
  have es: "encodeSymbols m data (int sc) 0 0 (replicate (nat (int sc * int P)) 0) (phase m) =
              Inr (signal, ph)"
  proof (cases "encodeSymbols m data (int sc) 0 0 (replicate (nat (int sc * int P)) 0) (phase m)")
    case (Inl p)
    with e show ?thesis
      unfolding Encode_def Let_def q P(1) using nz by simp
  next
    case (Inr r)
    obtain out1 ph1 where r: "r = (out1, ph1)" by (cases r)
    from e Inr have "Inr (out1, m\<lparr>phase := ph1\<rparr>) = (Inr (signal, m\<lparr>phase := ph\<rparr>) :: panic + _)"
      unfolding Encode_def Let_def q P(1) r using nz by simp
    then have "out1 = signal" and "phase (m\<lparr>phase := ph1\<rparr>) = phase (m\<lparr>phase := ph\<rparr>)"
      by simp_all
    then have "out1 = signal" "ph1 = ph" by simp_all
    with Inr r show ?thesis by simp
  qed
  have room: "int (length (replicate (nat (int sc * int P)) (0::real))) = int sc * int P"
    by simp
  have tones: "\<forall>f \<in> set (frequencies m).
                  0 \<le> 2 * pi * f / ?S \<and> 2 * pi * f / ?S < 2 * pi \<and>
                  (\<exists>c::int. real P * (2 * pi * f / ?S) = 2 * pi * real_of_int c)"
  proof
    fix f assume f: "f \<in> set (frequencies m)"
    with ot have f0: "0 < f" and f2: "2 * f < ?S" by (auto simp: orthogonalTones_def)
    from tone_cycles [OF ot f] obtain c :: int where
      c: "2 * pi * f / ?S = 2 * pi * real_of_int c / real (nat (symbolPeriod m))"
      by blast
    have "0 \<le> 2 * pi * f / ?S" using f0 S by simp
    moreover have "f / ?S < 1" using f0 f2 S by simp
    then have "2 * pi * (f / ?S) < 2 * pi * 1"
      by (intro mult_strict_left_mono) simp_all
    then have "2 * pi * f / ?S < 2 * pi" by simp
    moreover have "real P * (2 * pi * f / ?S) = 2 * pi * real_of_int c"
      unfolding c using P(2) by (simp add: P_def)
    ultimately show "0 \<le> 2 * pi * f / ?S \<and> 2 * pi * f / ?S < 2 * pi \<and>
                  (\<exists>c::int. real P * (2 * pi * f / ?S) = 2 * pi * real_of_int c)"
      by blast
  qed
  have sent: "symbolsFrom data (Order (config m)) (int sc) 0 0 = sentSymbols m data"
    using sentSymbols_eq [OF o(1) dv] by (simp add: sc_def t_def B_def)
  have len_sent: "length (sentSymbols m data) = sc"
    using sentSymbols_length [OF o(1,3) dv] by (simp add: sc_def t_def B_def)
  from encodeSymbols_tones [OF es P room tones fresh]
  have ph: "ph = phase m" and len: "length signal = nat (int sc * int P)"
    and win: "\<forall>i < sc. \<forall>n < P.
            signal ! ((0 + i) * P + n) =
              0.5 * sin (real n * (2 * pi * (frequencies m ! nat (sentSymbols m data ! i)) / ?S))"
    unfolding sent len_sent by simp_all
  have "m\<lparr>phase := ph\<rparr> = m" unfolding ph by simp
  with e have e': "Encode m data = Inr (signal, m)" by simp
  have len': "length signal = sc * P"
    using len by (simp add: nat_mult_distrib)
  show ?thesis
    using e' len' win unfolding sc_def t_def B_def P_def by (intro exI [of _ signal]) simp
qed

lemma correlate_tone:
  assumes ot: "orthogonalTones m"
    and f: "f \<in> set (frequencies m)" and g: "g \<in> set (frequencies m)"
    and lw: "length w = nat (symbolPeriod m)"
    and w: "\<forall>n < nat (symbolPeriod m).
              w ! n = 0.5 * sin (real n * (2 * pi * f / real_of_int (SampleRate (config m))))"
  shows "correlateWithFrequency m w g = (if f = g then 1 / 4 else 0)"
proof -
  define P where "P = nat (symbolPeriod m)"
  define a where "a = 2 * pi * f / real_of_int (SampleRate (config m))"
  define b where "b = 2 * pi * g / real_of_int (SampleRate (config m))"
  have S: "0 < real_of_int (SampleRate (config m))"
    using ot by (simp add: orthogonalTones_def)
  have per: "0 < symbolPeriod m" using ot by (simp add: orthogonalTones_def)
  then have P: "0 < P" by (simp add: P_def)
  from tone_cycles [OF ot f] obtain ca :: int where
    ca: "0 < ca" "2 * ca < symbolPeriod m" "a = 2 * pi * real_of_int ca / real P"
    unfolding a_def P_def by blast
  from tone_cycles [OF ot g] obtain cb :: int where
    cb: "0 < cb" "2 * cb < symbolPeriod m" "b = 2 * pi * real_of_int cb / real P"
    unfolding b_def P_def by blast
  have ca2: "2 * ca < int P" and cb2: "2 * cb < int P"
    using ca(2) cb(2) per by (simp_all add: P_def)
  have same: "(ca = cb) = (f = g)"
  proof
    assume "ca = cb"
    then have "a = b" using ca(3) cb(3) by simp
    then have "2 * pi * f = 2 * pi * g"
      unfolding a_def b_def using S by (simp only: divide_cancel_right) simp
    then show "f = g" by simp
  next
    assume "f = g"
    then have "a = b" by (simp add: a_def b_def)
    then have "real_of_int ca / real P = real_of_int cb / real P"
      unfolding ca(3) cb(3) by simp
    then have "real_of_int ca = real_of_int cb" using P by simp
    then show "ca = cb" by simp
  qed
  have wn: "\<And>i. i < P \<Longrightarrow> w ! i = 0.5 * sin (real i * a)"
    using w by (simp add: P_def a_def)
  have "correlateLoop b w 0 0 = 0 + (\<Sum>i<length w. w ! i * sin (0 + real i * b))"
    by (rule correlateLoop_sum) simp_all
  also have "\<dots> = (\<Sum>i<P. w ! i * sin (real i * b))"
    unfolding lw P_def [symmetric] by simp
  also have "\<dots> = (\<Sum>i<P. 0.5 * (sin (real i * a) * sin (real i * b)))"
  proof (rule sum.cong)
    fix i assume "i \<in> {..<P}"
    then have "i < P" by simp
    then show "w ! i * sin (real i * b) = 0.5 * (sin (real i * a) * sin (real i * b))"
      by (simp only: wn mult.assoc)
  qed simp
  also have "\<dots> = 0.5 * (\<Sum>i<P. sin (real i * a) * sin (real i * b))"
    by (simp only: sum_distrib_left)
  also have "(\<Sum>i<P. sin (real i * a) * sin (real i * b)) = (if ca = cb then real P / 2 else 0)"
    unfolding ca(3) cb(3) by (rule tone_orthogonal [OF ca(1) ca2 cb(1) cb2])
  finally have "correlateLoop b w 0 0 = 0.5 * (if f = g then real P / 2 else 0)"
    unfolding same .
  then have cl: "correlateLoop b w 0 0 = (if f = g then real P / 4 else 0)"
    by (cases "f = g") simp_all
  have "correlateWithFrequency m w g = \<bar>correlateLoop b w 0 0\<bar> / real P"
    unfolding correlateWithFrequency_def Let_def b_def lw P_def ..
  also have "\<dots> = (if f = g then 1 / 4 else 0)"
    unfolding cl using P by simp
  finally show ?thesis .
qed

lemma detect_tone_window:
  assumes ot: "orthogonalTones m" and s: "s < length (frequencies m)"
    and lw: "length w = nat (symbolPeriod m)"
    and w: "\<forall>n < nat (symbolPeriod m).
              w ! n = 0.5 * sin (real n * (2 * pi * (frequencies m ! s)
                                            / real_of_int (SampleRate (config m))))"
  shows "detectSymbol m w = int s"
proof -
  have ne: "frequencies m \<noteq> []" using s by auto
  have di: "distinct (frequencies m)" using ot by (simp add: orthogonalTones_def)
  have fs: "frequencies m ! s \<in> set (frequencies m)" using s by simp
  from detectSymbol_spec [OF ne, of w] obtain i where
    i: "i < length (frequencies m)" "detectSymbol m w = int i"
    and mx: "\<forall>j < length (frequencies m).
               correlateWithFrequency m w (frequencies m ! j)
                 \<le> correlateWithFrequency m w (frequencies m ! i)"
    by blast
  have fi: "frequencies m ! i \<in> set (frequencies m)" using i(1) by simp
  have "correlateWithFrequency m w (frequencies m ! s) = 1 / 4"
    using correlate_tone [OF ot fs fs lw w] by simp
  moreover have "correlateWithFrequency m w (frequencies m ! i) =
                   (if frequencies m ! s = frequencies m ! i then 1 / 4 else 0)"
    by (rule correlate_tone [OF ot fs fi lw w])
  moreover have "correlateWithFrequency m w (frequencies m ! s)
                   \<le> correlateWithFrequency m w (frequencies m ! i)"
    using mx s by blast
  ultimately have "frequencies m ! s = frequencies m ! i"
    by (cases "frequencies m ! s = frequencies m ! i") simp_all
  then have "s = i" using di s i(1) by (simp add: nth_eq_iff_index_eq)
  with i(2) show ?thesis by simp
qed

text \<open>
  C1. Take a modem on which \<open>Encode\<close> cannot panic, whose phase accumulators are all 0 as
  \<open>New\<close> leaves them, and whose tones are orthogonal over a symbol period: the period and
  the sample rate are positive, the frequencies of the table are pairwise distinct, and each
  lies strictly between 0 and half the sample rate and completes a whole number of cycles in
  one period. For data whose number of bits is a multiple of the order, \<open>Encode\<close> returns
  a signal of \<open>bits div Order\<close> periods and leaves the accumulators at 0, and \<open>Decode\<close> of
  that signal returns the data.
\<close>

theorem Decode_Encode_roundtrip:
  assumes enc: "encodable m" and ot: "orthogonalTones m"
    and fresh: "\<forall>p \<in> set (phase m). p = 0"
    and dv: "nat (Order (config m)) dvd length data * 8"
  shows "\<exists>signal. Encode m data = Inr (signal, m) \<and>
           length signal = length data * 8 div nat (Order (config m)) * nat (symbolPeriod m) \<and>
           Decode m signal = Inr data"
proof -
  define B where "B = nat (Order (config m))"
  define P where "P = nat (symbolPeriod m)"
  define sc where "sc = length data * 8 div B"
  let ?S = "real_of_int (SampleRate (config m))"
  have o: "1 \<le> Order (config m)" "Order (config m) \<le> 63"
    and tab: "2 ^ nat (Order (config m)) \<le> length (frequencies m)"
    using enc by (simp_all add: encodable_def)
  have per: "0 < symbolPeriod m" using ot by (simp add: orthogonalTones_def)
  then have P: "0 < P" by (simp add: P_def)
  from Encode_tones [OF enc ot fresh dv] obtain signal where
    e: "Encode m data = Inr (signal, m)"
    and len: "length signal = sc * P"
    and win: "\<forall>k < sc. \<forall>n < P. signal ! (k * P + n) =
                0.5 * sin (real n * (2 * pi * (frequencies m ! nat (sentSymbols m data ! k)) / ?S))"
    unfolding sc_def B_def P_def by blast
  have n: "length signal div nat (symbolPeriod m) = sc"
    using len P by (simp add: P_def)
  have det: "\<forall>k < length data * 8 div nat (Order (config m)).
               detectSymbol m (windowAt m signal k) = sentSymbols m data ! k"
  proof (intro allI impI)
    fix k assume k0: "k < length data * 8 div nat (Order (config m))"
    then have k: "k < sc" by (simp add: sc_def B_def)
    then have k': "k < length signal div nat (symbolPeriod m)" using n by simp
    let ?w = "windowAt m signal k"
    have wa: "?w = take P (drop (k * P) signal)"
      using windowAt_aligned [OF per k'] by (simp add: P_def)
    have "Suc k * P \<le> sc * P" using k by (intro mult_le_mono1) simp
    then have fit: "k * P + P \<le> length signal" using len by simp
    then have lw: "length ?w = nat (symbolPeriod m)"
      unfolding wa by (simp add: P_def)
    from sentSymbols_range [OF o dv k0]
    have r: "0 \<le> sentSymbols m data ! k"
      "sentSymbols m data ! k < 2 ^ nat (Order (config m))"
      by simp_all
    have "sentSymbols m data ! k < int (2 ^ nat (Order (config m)))"
      using r(2) by simp
    then have "nat (sentSymbols m data ! k) < 2 ^ nat (Order (config m))"
      using r(1) by linarith
    from this tab have s: "nat (sentSymbols m data ! k) < length (frequencies m)"
      by (rule less_le_trans)
    have w: "\<forall>n < nat (symbolPeriod m).
              ?w ! n = 0.5 * sin (real n * (2 * pi * (frequencies m ! nat (sentSymbols m data ! k))
                                            / ?S))"
    proof (intro allI impI)
      fix i assume "i < nat (symbolPeriod m)"
      then have i: "i < P" by (simp add: P_def)
      then have "?w ! i = signal ! (k * P + i)"
        unfolding wa using fit by simp
      with win k i show "?w ! i = 0.5 * sin (real i *
          (2 * pi * (frequencies m ! nat (sentSymbols m data ! k)) / ?S))"
        by simp
    qed
    from detect_tone_window [OF ot s lw w] r(1)
    show "detectSymbol m (windowAt m signal k) = sentSymbols m data ! k" by simp
  qed
  from Decode_of_sent(2) [OF enc per dv e det] e len show ?thesis
    unfolding sc_def B_def P_def by blast
qed

theorem Decode_Encode_roundtrip_witness:
  "New linuxAmd64 DefaultConfig = Inr defaultModem \<and>
   encodable defaultModem \<and> orthogonalTones defaultModem \<and>
   list_all (\<lambda>p. p = 0) (phase defaultModem) \<and>
   nat (Order (config defaultModem)) dvd length helloFSK * 8 \<and>
   (\<exists>signal. Encode defaultModem helloFSK = Inr (signal, defaultModem) \<and>
      length signal = 21120 \<and> Decode defaultModem signal = Inr helloFSK)"
proof -
  have o: "orthogonalTones defaultModem"
    by (simp add: orthogonalTones_def defaultModem_def DefaultConfig_def)
  have f: "\<forall>p \<in> set (phase defaultModem). p = 0"
    by (simp add: defaultModem_def)
  have d: "nat (Order (config defaultModem)) dvd length helloFSK * 8"
    by (simp add: defaultModem_def DefaultConfig_def helloFSK_def)
  have n: "length helloFSK * 8 div nat (Order (config defaultModem)) *
             nat (symbolPeriod defaultModem) = 21120"
    by (simp add: defaultModem_def DefaultConfig_def helloFSK_def)
  from Decode_Encode_roundtrip [OF encodable_defaultModem o f d]
  have "\<exists>signal. Encode defaultModem helloFSK = Inr (signal, defaultModem) \<and>
      length signal = 21120 \<and> Decode defaultModem signal = Inr helloFSK"
    unfolding n .
  with New_DefaultConfig encodable_defaultModem o d show ?thesis
    by (simp add: defaultModem_def)
qed

text \<open>
  The condition on the tones is needed: alignment of the windows and the absence of
  interference do not make \<open>Decode\<close> detect what \<open>Encode\<close> sent. At a baud rate equal to
  the sample rate the period is one sample, no tone completes a cycle in it, the reference
  of every correlation is \<open>sin 0\<close>, every correlation is 0 and every window is detected as
  symbol 0: the byte \<open>0xFF\<close> comes back as \<open>0x00\<close>.
\<close>

theorem Decode_Encode_counterexample:
  "New linuxAmd64 \<lparr>BaseFreq = 1000, FreqSpacing = 200, Order = 2, BaudRate = 48000,
                     SampleRate = 48000\<rparr> = Inr unitModem \<and>
   (\<exists>signal m'. Encode unitModem [0xFF] = Inr (signal, m') \<and> length signal = 4 \<and>
      Decode m' signal = Inr [0x00])"
proof -
  from Encode_total [OF encodable_unitModem, of "[0xFF]"]
  obtain signal ph where e: "Encode unitModem [0xFF] = Inr (signal, unitModem\<lparr>phase := ph\<rparr>)"
    and l: "int (length signal) =
              ((int (length [0xFF :: byte] * 8) + Order (config unitModem) - 1)
                 div Order (config unitModem)) * symbolPeriod unitModem"
    by blast
  from l have l4: "length signal = 4"
    by (simp add: unitModem_def)
  have "Decode (unitModem\<lparr>phase := ph\<rparr>) signal = Inr [0]"
    unfolding Decode_phase by (rule Decode_unit [OF l4])
  with e l4 New_unit show ?thesis by blast
qed

end
